theory Spec2Isabelle
  imports Main "HOL-Library.Word"
begin

section \<open>Strings as the program has them\<close>

text \<open>
  A JavaScript string is a sequence of 16-bit code units. The literals of the source
  are ASCII, so \<open>js ''Info''\<close> is the string the source writes \<open>'Info'\<close>.
  A value read out of an array by destructuring is a string or \<open>undefined\<close>:
  \<open>None\<close> is \<open>undefined\<close>.
\<close>

type_synonym code_unit = "16 word"
type_synonym jsstring = "code_unit list"
type_synonym jsval = "jsstring option"

definition js :: "string \<Rightarrow> jsstring" where
  "js s = map of_char s"

definition comma :: code_unit where "comma = 0x2C"
definition dquote :: code_unit where "dquote = 0x22"
definition newline :: code_unit where "newline = 0x0A"
definition hyphen :: code_unit where "hyphen = 0x2D"

text \<open>The code units that \<open>String.prototype.trim\<close> removes: WhiteSpace and LineTerminator.\<close>

definition isWhiteSpace :: "code_unit \<Rightarrow> bool" where
  "isWhiteSpace c \<longleftrightarrow>
     c = 0x09 \<or> c = 0x0A \<or> c = 0x0B \<or> c = 0x0C \<or> c = 0x0D \<or> c = 0x20 \<or> c = 0xA0 \<or>
     c = 0x1680 \<or> (0x2000 \<le> c \<and> c \<le> 0x200A) \<or> c = 0x2028 \<or> c = 0x2029 \<or>
     c = 0x202F \<or> c = 0x205F \<or> c = 0x3000 \<or> c = 0xFEFF"

definition trim :: "jsstring \<Rightarrow> jsstring" where
  "trim s = rev (dropWhile isWhiteSpace (rev (dropWhile isWhiteSpace s)))"

text \<open>\<open>if (x)\<close> and \<open>x || ''\<close> on a string or \<open>undefined\<close>.\<close>

definition truthy :: "jsval \<Rightarrow> bool" where
  "truthy v \<longleftrightarrow> (case v of None \<Rightarrow> False | Some s \<Rightarrow> s \<noteq> [])"

definition orEmpty :: "jsval \<Rightarrow> jsstring" where
  "orEmpty v = (if truthy v then the v else [])"

definition startsWith :: "jsstring \<Rightarrow> code_unit \<Rightarrow> bool" where
  "startsWith s c \<longleftrightarrow> (case s of [] \<Rightarrow> False | x # _ \<Rightarrow> x = c)"

definition endsWith :: "jsstring \<Rightarrow> code_unit \<Rightarrow> bool" where
  "endsWith s c \<longleftrightarrow> (case rev s of [] \<Rightarrow> False | x # _ \<Rightarrow> x = c)"

text \<open>\<open>val.slice(1, -1)\<close>: from index 1 up to, not including, the last code unit;
  empty when the string has fewer than two code units.\<close>

definition slice_1_m1 :: "jsstring \<Rightarrow> jsstring" where
  "slice_1_m1 s = butlast (tl s)"

section \<open>The row splitter (csvLoader.ts, lines 19 to 30)\<close>

fun cons_first :: "'a \<Rightarrow> 'a list list \<Rightarrow> 'a list list" where
  "cons_first c [] = [[c]]"
| "cons_first c (f # fs) = (c # f) # fs"

text \<open>
  \<open>s.split(sep)\<close> where every match of the separator is one code unit: \<open>is_sep c rest\<close>
  says whether the code unit \<open>c\<close>, followed by \<open>rest\<close> up to the end of the string, is a
  match. The empty string splits into one empty piece.
\<close>

fun split_at :: "(code_unit \<Rightarrow> jsstring \<Rightarrow> bool) \<Rightarrow> jsstring \<Rightarrow> jsstring list" where
  "split_at is_sep [] = [[]]"
| "split_at is_sep (c # cs) =
     (if is_sep c cs then [] # split_at is_sep cs else cons_first c (split_at is_sep cs))"

text \<open>
  The lookahead \<^verbatim>\<open>(?=(?:(?:[^"]*"){2})*[^"]*$)\<close> of the source's regular expression,
  run on the rest of the row: skip what is not a quote; at the end of the string the
  lookahead succeeds; otherwise take the quote, skip again, and a second quote must
  follow before the group repeats.
\<close>

function lookahead :: "jsstring \<Rightarrow> bool" where
  "lookahead s =
     (case dropWhile (\<lambda>c. c \<noteq> dquote) s of
        [] \<Rightarrow> True
      | q1 # r \<Rightarrow>
          (case dropWhile (\<lambda>c. c \<noteq> dquote) r of
             [] \<Rightarrow> False
           | q2 # r' \<Rightarrow> lookahead r'))"
  by pat_completeness auto
termination
proof (relation "measure length")
  show "wf (measure length)" by simp
next
  fix s :: jsstring and q1 r q2 r'
  assume a: "dropWhile (\<lambda>c. c \<noteq> dquote) s = q1 # r"
    and b: "dropWhile (\<lambda>c. c \<noteq> dquote) r = q2 # r'"
  have "length (q1 # r) \<le> length s"
    using length_dropWhile_le [of "\<lambda>c. c \<noteq> dquote" s] a by simp
  moreover have "length (q2 # r') \<le> length r"
    using length_dropWhile_le [of "\<lambda>c. c \<noteq> dquote" r] b by simp
  ultimately show "(r', s) \<in> measure length" by simp
qed

declare lookahead.simps [simp del]

text \<open>\<^verbatim>\<open>row.split(/,(?=(?:(?:[^"]*"){2})*[^"]*$)/)\<close>\<close>

definition row_sep :: "code_unit \<Rightarrow> jsstring \<Rightarrow> bool" where
  "row_sep c rest \<longleftrightarrow> c = comma \<and> lookahead rest"

definition split_row :: "jsstring \<Rightarrow> jsstring list" where
  "split_row row = split_at row_sep row"

text \<open>\<^verbatim>\<open>val.replace(/""/g, '"')\<close>: matches are found left to right and do not overlap.\<close>

fun replace_dq :: "jsstring \<Rightarrow> jsstring" where
  "replace_dq (a # b # cs) =
     (if a = dquote \<and> b = dquote then dquote # replace_dq cs else a # replace_dq (b # cs))"
| "replace_dq cs = cs"

text \<open>The callback of \<open>.map\<close> on the split row (lines 22 to 30).\<close>

definition normalize_field :: "jsstring \<Rightarrow> jsstring" where
  "normalize_field c =
     (let val = trim c;
          val = (if startsWith val dquote \<and> endsWith val dquote then slice_1_m1 val else val)
      in replace_dq val)"

definition parse_cols :: "jsstring \<Rightarrow> jsstring list" where
  "parse_cols row = map normalize_field (split_row row)"

text \<open>\<open>text.split('\n').slice(1).filter(r => r.trim() !== '')\<close> (line 10).\<close>

definition rowsOf :: "jsstring \<Rightarrow> jsstring list" where
  "rowsOf text = filter (\<lambda>r. trim r \<noteq> []) (drop 1 (split_at (\<lambda>c rest. c = newline) text))"

subsection \<open>The splitter and the normalization in the words of the specification\<close>

text \<open>
  A scanner that reads the row from the left and remembers whether it is inside a quoted
  span (a span opened by a double quote and closed by the next one); a comma separates
  fields only outside such a span.
\<close>

fun spec_split :: "bool \<Rightarrow> jsstring \<Rightarrow> jsstring list" where
  "spec_split inq [] = [[]]"
| "spec_split inq (c # cs) =
     (if c = dquote then cons_first c (spec_split (\<not> inq) cs)
      else if c = comma \<and> \<not> inq then [] # spec_split inq cs
      else cons_first c (spec_split inq cs))"

text \<open>Strip one matching pair of surrounding double quotes, if present: a pair is two
  code units.\<close>

definition spec_strip_pair :: "jsstring \<Rightarrow> jsstring" where
  "spec_strip_pair v =
     (if 2 \<le> length v \<and> hd v = dquote \<and> last v = dquote then butlast (tl v) else v)"

definition spec_normalize :: "jsstring \<Rightarrow> jsstring" where
  "spec_normalize c = replace_dq (spec_strip_pair (trim c))"

section \<open>The data model and the heap\<close>

text \<open>
  Modelled from the spec: the interfaces \<open>Hall\<close>, \<open>Brand\<close> and \<open>CarModel\<close> of
  \<open>types.ts\<close>, which is not among the source files. The fields are those of section 3 of
  the specification, which are the ones the code reads and writes (\<open>id\<close> and \<open>name\<close> are
  renamed where two records have one, \<open>note\<close> because the word is reserved). The types
  of \<open>floor\<close> and \<open>type\<close> are parameters, and any further field of a hall is in the
  record's extension, which the spread \<open>{...h, brands: []}\<close> copies. The note of an entry
  is optional: the code stores what destructuring gave, a string or \<open>undefined\<close>.

  Objects live in a heap, one region per type, an address being an index. A hall holds the
  address of its \<open>brands\<close> array, and such an array holds the addresses of Brand
  objects: the parser reaches one Brand object both through \<open>brandMap\<close> and through the
  hall's array. The arrays \<open>models\<close> and \<open>fullModelList\<close> are created with the Brand,
  and nothing else refers to them, so they are values inside it.
\<close>

type_synonym addr = nat

record car_model =
  model_name :: jsstring
  highlight :: jsstring
  isNewLaunch :: bool
  model_note :: jsval

record brand =
  brand_id :: jsstring
  booth :: jsstring
  name :: jsstring
  description :: jsstring
  models :: "car_model list"
  fullModelList :: "car_model list"

record ('f, 't) hall =
  hall_id :: jsstring
  code :: jsstring
  floor :: 'f
  type :: 't
  brands :: addr

record ('f, 't, 'm) heap =
  hallObjs :: "('f, 't, 'm) hall_scheme list"
  arrays :: "addr list list"
  brandObjs :: "brand list"

text \<open>The heap together with the locals of \<open>parseBrandsCSV\<close> that the loop uses.\<close>

record ('f, 't, 'm) pstate = "('f, 't, 'm) heap" +
  updatedHalls :: "addr list"
  brandMap :: "jsstring \<rightharpoonup> addr"

definition heap_of :: "('f, 't, 'm) pstate \<Rightarrow> ('f, 't, 'm) heap" where
  "heap_of st = \<lparr>hallObjs = hallObjs st, arrays = arrays st, brandObjs = brandObjs st\<rparr>"

text \<open>What a reader of the collection sees: the Brand objects of a hall, in array order.\<close>

definition brandsOf :: "('f, 't, 'm, 'x) heap_scheme \<Rightarrow> addr \<Rightarrow> brand list" where
  "brandsOf h a = map (\<lambda>b. brandObjs h ! b) (arrays h ! brands (hallObjs h ! a))"

definition allBrands :: "('f, 't, 'm, 'x) heap_scheme \<Rightarrow> addr list \<Rightarrow> brand list" where
  "allBrands h hs = concat (map (brandsOf h) hs)"

section \<open>parseBrandsCSV (csvLoader.ts, lines 4 to 88)\<close>

text \<open>\<open>skeletonHalls.map(h => ({...h, brands: [] as Brand[]}))\<close> (lines 12 to 15):
  each call of the arrow function allocates an empty array and a hall object.\<close>

fun cloneHalls :: "('f, 't, 'm) heap \<Rightarrow> addr list \<Rightarrow> ('f, 't, 'm) heap \<times> addr list" where
  "cloneHalls h [] = (h, [])"
| "cloneHalls h (a # rest) =
     (let arr = length (arrays h);
          h1 = h\<lparr>arrays := arrays h @ [[]]\<rparr>;
          new = length (hallObjs h1);
          h2 = h1\<lparr>hallObjs := hallObjs h1 @ [(hallObjs h1 ! a)\<lparr>brands := arr\<rparr>]\<rparr>;
          (h3, news) = cloneHalls h2 rest
      in (h3, new # news))"

text \<open>\<open>findIndex\<close>: \<open>None\<close> is the source's \<open>-1\<close>.\<close>

fun findIndex :: "('a \<Rightarrow> bool) \<Rightarrow> 'a list \<Rightarrow> nat option" where
  "findIndex P [] = None"
| "findIndex P (x # xs) = (if P x then Some 0 else map_option Suc (findIndex P xs))"

definition nth_opt :: "'a list \<Rightarrow> nat \<Rightarrow> 'a option" where
  "nth_opt xs i = (if i < length xs then Some (xs ! i) else None)"

definition updBrand :: "(brand \<Rightarrow> brand) \<Rightarrow> addr \<Rightarrow> ('f, 't, 'm) pstate \<Rightarrow> ('f, 't, 'm) pstate" where
  "updBrand f b st = st\<lparr>brandObjs := (brandObjs st)[b := f (brandObjs st ! b)]\<rparr>"

text \<open>The object literal of lines 43 to 50.\<close>

definition newBrand :: "jsstring \<Rightarrow> jsstring \<Rightarrow> jsstring \<Rightarrow> brand" where
  "newBrand brandId boothCode brandName =
     \<lparr>brand_id = brandId, booth = boothCode, name = brandName,
      description = [], models = [], fullModelList = []\<rparr>"

text \<open>Lines 41 to 53: the Brand object of this id, created, put into the map and pushed
  onto the hall's array when the map has none.\<close>

definition getOrCreateBrand ::
  "nat \<Rightarrow> jsstring \<Rightarrow> jsstring \<Rightarrow> jsstring \<Rightarrow> ('f, 't, 'm) pstate \<Rightarrow> ('f, 't, 'm) pstate \<times> addr" where
  "getOrCreateBrand hallIndex brandId boothCode brandName st =
     (case brandMap st brandId of
        Some b \<Rightarrow> (st, b)
      | None \<Rightarrow>
          (let b = length (brandObjs st);
               arr = brands (hallObjs st ! (updatedHalls st ! hallIndex))
           in (st\<lparr>brandObjs := brandObjs st @ [newBrand brandId boothCode brandName],
                    brandMap := (brandMap st)(brandId \<mapsto> b),
                    arrays := (arrays st)[arr := arrays st ! arr @ [b]]\<rparr>,
               b)))"

text \<open>Lines 55 to 79: the dispatch on the category.\<close>

definition applyCategory ::
  "addr \<Rightarrow> jsval \<Rightarrow> jsval \<Rightarrow> jsval \<Rightarrow> jsval \<Rightarrow> ('f, 't, 'm) pstate \<Rightarrow> ('f, 't, 'm) pstate" where
  "applyCategory b category modelName tag noteField st =
     (if category = Some (js ''Info'') then
        (if truthy noteField then updBrand (\<lambda>x. x\<lparr>description := the noteField\<rparr>) b st else st)
      else if category = Some (js ''Key'') then
        (if truthy modelName then
           updBrand (\<lambda>x. x\<lparr>models := models x @
              [\<lparr>model_name = the modelName, highlight = orEmpty tag,
                isNewLaunch = True, model_note = noteField\<rparr>]\<rparr>) b st
         else st)
      else if category = Some (js ''Normal'') then
        (if truthy modelName then
           updBrand (\<lambda>x. x\<lparr>fullModelList := fullModelList x @
              [\<lparr>model_name = the modelName, highlight = orEmpty tag,
                isNewLaunch = False, model_note = noteField\<rparr>]\<rparr>) b st
         else st)
      else st)"

text \<open>The body of the \<open>forEach\<close> callback (lines 19 to 80).\<close>

definition processRow :: "('f, 't, 'm) pstate \<Rightarrow> jsstring \<Rightarrow> ('f, 't, 'm) pstate" where
  "processRow st row =
     (let cols = parse_cols row in
      if length cols < 3 then st
      else
        let hallCode = cols ! 0; boothCode = cols ! 1; brandName = cols ! 2;
            category = nth_opt cols 3; modelName = nth_opt cols 4;
            tag = nth_opt cols 5; noteField = nth_opt cols 6
        in case findIndex (\<lambda>a. code (hallObjs st ! a) = hallCode) (updatedHalls st) of
             None \<Rightarrow> st
           | Some hallIndex \<Rightarrow>
               (let brandId = hallCode @ [hyphen] @ boothCode;
                    (st1, b) = getOrCreateBrand hallIndex brandId boothCode brandName st
                in applyCategory b category modelName tag noteField st1))"

definition initState :: "('f, 't, 'm) heap \<Rightarrow> addr list \<Rightarrow> ('f, 't, 'm) pstate" where
  "initState h skeletonHalls =
     (let (h1, news) = cloneHalls h skeletonHalls
      in \<lparr>hallObjs = hallObjs h1, arrays = arrays h1, brandObjs = brandObjs h1,
          updatedHalls = news, brandMap = Map.empty\<rparr>)"

text \<open>Lines 12 to 82 once the rows are there: the new heap and the returned array.\<close>

definition parseRows ::
  "('f, 't, 'm) heap \<Rightarrow> addr list \<Rightarrow> jsstring list \<Rightarrow> ('f, 't, 'm) heap \<times> addr list" where
  "parseRows h skeletonHalls rows =
     (let st = foldl processRow (initState h skeletonHalls) rows
      in (heap_of st, updatedHalls st))"

text \<open>
  The states that lines 12 to 80 pass through. Nothing in these lines throws on values of
  the declared types, but the engine can throw in any operation: a \<open>RangeError\<close> when
  memory or the stack of the regular-expression matcher is exhausted. An operation that
  throws has written nothing, so the heap at the exception is the heap that the writes
  before it have made. The functions below list, for each part of the code, the state after
  each of its writes, in the order of the writes: the two allocations of each call of the
  arrow function of \<open>map\<close>; the allocation of line 43, the \<open>set\<close> of line 51 and the
  \<open>push\<close> of line 52; the state after the dispatch of lines 55 to 79, which writes once
  or not at all.
\<close>

fun cloneHallsTrace :: "('f, 't, 'm) heap \<Rightarrow> addr list \<Rightarrow> ('f, 't, 'm) heap list" where
  "cloneHallsTrace h [] = []"
| "cloneHallsTrace h (a # rest) =
     (let arr = length (arrays h);
          h1 = h\<lparr>arrays := arrays h @ [[]]\<rparr>;
          h2 = h1\<lparr>hallObjs := hallObjs h1 @ [(hallObjs h1 ! a)\<lparr>brands := arr\<rparr>]\<rparr>
      in h1 # h2 # cloneHallsTrace h2 rest)"

definition getOrCreateBrandTrace ::
  "nat \<Rightarrow> jsstring \<Rightarrow> jsstring \<Rightarrow> jsstring \<Rightarrow> ('f, 't, 'm) pstate \<Rightarrow> ('f, 't, 'm) pstate list" where
  "getOrCreateBrandTrace hallIndex brandId boothCode brandName st =
     (case brandMap st brandId of
        Some b \<Rightarrow> []
      | None \<Rightarrow>
          (let b = length (brandObjs st);
               arr = brands (hallObjs st ! (updatedHalls st ! hallIndex));
               s1 = st\<lparr>brandObjs := brandObjs st @ [newBrand brandId boothCode brandName]\<rparr>;
               s2 = s1\<lparr>brandMap := (brandMap st)(brandId \<mapsto> b)\<rparr>;
               s3 = s2\<lparr>arrays := (arrays st)[arr := arrays st ! arr @ [b]]\<rparr>
           in [s1, s2, s3]))"

definition processRowTrace :: "('f, 't, 'm) pstate \<Rightarrow> jsstring \<Rightarrow> ('f, 't, 'm) pstate list" where
  "processRowTrace st row =
     (let cols = parse_cols row in
      if length cols < 3 then []
      else
        let hallCode = cols ! 0; boothCode = cols ! 1; brandName = cols ! 2;
            category = nth_opt cols 3; modelName = nth_opt cols 4;
            tag = nth_opt cols 5; noteField = nth_opt cols 6
        in case findIndex (\<lambda>a. code (hallObjs st ! a) = hallCode) (updatedHalls st) of
             None \<Rightarrow> []
           | Some hallIndex \<Rightarrow>
               (let brandId = hallCode @ [hyphen] @ boothCode;
                    (st1, b) = getOrCreateBrand hallIndex brandId boothCode brandName st
                in getOrCreateBrandTrace hallIndex brandId boothCode brandName st @
                   [applyCategory b category modelName tag noteField st1]))"

fun rowsTrace :: "('f, 't, 'm) pstate \<Rightarrow> jsstring list \<Rightarrow> ('f, 't, 'm) pstate list" where
  "rowsTrace st [] = []"
| "rowsTrace st (row # rows) = processRowTrace st row @ rowsTrace (processRow st row) rows"

text \<open>The heaps of a run of lines 10 to 82, from the heap at the call to the heap at
  the \<open>return\<close> of line 82 (lemma \<open>parseTrace_last\<close>).\<close>

definition parseTrace ::
  "('f, 't, 'm) heap \<Rightarrow> addr list \<Rightarrow> jsstring list \<Rightarrow> ('f, 't, 'm) heap list" where
  "parseTrace h skeletonHalls rows =
     h # cloneHallsTrace h skeletonHalls @ map heap_of (rowsTrace (initState h skeletonHalls) rows)"

text \<open>The heap when the exception is thrown after \<open>n\<close> writes of the run, or after the
  last write when the run has fewer.\<close>

definition heapAtThrow ::
  "('f, 't, 'm) heap \<Rightarrow> addr list \<Rightarrow> jsstring list \<Rightarrow> nat \<Rightarrow> ('f, 't, 'm) heap" where
  "heapAtThrow h skeletonHalls rows n =
     (let t = parseTrace h skeletonHalls rows in t ! min n (length t - 1))"

text \<open>
  What the environment can do during a call: \<open>fetch\<close> rejects (a network or transport
  error) or resolves with a response, whatever its status (\<open>ok\<close> is false for a status
  outside 200 to 299); \<open>response.text()\<close> rejects or resolves with the body; and with
  the body there, lines 10 to 82 run to their end (\<open>BodyText\<close>), or an exception is
  thrown in them after some number of their writes (\<open>BodyTextThenThrow\<close>).
\<close>

datatype body_result = BodyRejected | BodyText jsstring | BodyTextThenThrow jsstring nat
datatype fetch_result = FetchRejected | Response (ok: bool) (body: body_result)

datatype 'a promise = Rejected | Resolved 'a

text \<open>The \<open>try\<close> block: \<open>Inl\<close> is an exception thrown inside it, with the heap at
  that moment; \<open>Inr\<close> is the heap and the value at \<open>return updatedHalls\<close>.\<close>

definition tryBlock ::
  "fetch_result \<Rightarrow> ('f, 't, 'm) heap \<Rightarrow> addr list \<Rightarrow>
     ('f, 't, 'm) heap + ('f, 't, 'm) heap \<times> addr list" where
  "tryBlock fr h skeletonHalls =
     (case fr of
        FetchRejected \<Rightarrow> Inl h
      | Response _ b \<Rightarrow>
          (case b of
             BodyRejected \<Rightarrow> Inl h
           | BodyText text \<Rightarrow> Inr (parseRows h skeletonHalls (rowsOf text))
           | BodyTextThenThrow text n \<Rightarrow> Inl (heapAtThrow h skeletonHalls (rowsOf text) n)))"

text \<open>The whole function: the \<open>catch\<close> block catches every exception of the \<open>try\<close>
  block, logs it and returns \<open>skeletonHalls\<close>; the promise of an \<open>async\<close> function is
  rejected only by an exception that leaves its body.\<close>

definition parseBrandsCSV ::
  "fetch_result \<Rightarrow> ('f, 't, 'm) heap \<Rightarrow> addr list \<Rightarrow> (('f, 't, 'm) heap \<times> addr list) promise" where
  "parseBrandsCSV fr h skeletonHalls =
     (case tryBlock fr h skeletonHalls of
        Inr r \<Rightarrow> Resolved r
      | Inl h' \<Rightarrow> Resolved (h', skeletonHalls))"

section \<open>The brand list of the side panel (Sidebar.tsx, line 94)\<close>

text \<open>
  \<open>Array.prototype.sort\<close> is the engine's: it sorts the array in place, it is stable, and
  with a consistent comparator it leaves the array ordered by it. Insertion from the
  right is a sort of that kind. \<open>localeCompare\<close> depends on the host's locale and is a
  parameter.
\<close>

fun insort_cmp :: "('a \<Rightarrow> 'a \<Rightarrow> int) \<Rightarrow> 'a \<Rightarrow> 'a list \<Rightarrow> 'a list" where
  "insort_cmp cmp x [] = [x]"
| "insort_cmp cmp x (y # ys) = (if cmp x y \<le> 0 then x # y # ys else y # insort_cmp cmp x ys)"

definition array_sort :: "('a \<Rightarrow> 'a \<Rightarrow> int) \<Rightarrow> 'a list \<Rightarrow> 'a list" where
  "array_sort cmp xs = foldr (insort_cmp cmp) xs []"

text \<open>\<open>[...hall.brands].sort((a, b) => a.booth.localeCompare(b.booth))\<close>: the spread
  allocates a new array, which is then sorted in place; the result is its address.\<close>

definition sortedBrands ::
  "(jsstring \<Rightarrow> jsstring \<Rightarrow> int) \<Rightarrow> ('f, 't, 'm) heap \<Rightarrow> addr \<Rightarrow> ('f, 't, 'm) heap \<times> addr" where
  "sortedBrands localeCompare h hall =
     (let copy = length (arrays h);
          h1 = h\<lparr>arrays := arrays h @ [arrays h ! brands (hallObjs h ! hall)]\<rparr>;
          h2 = h1\<lparr>arrays := (arrays h1)[copy :=
                 array_sort (\<lambda>a b. localeCompare (booth (brandObjs h1 ! a)) (booth (brandObjs h1 ! b)))
                   (arrays h1 ! copy)]\<rparr>
      in (h2, copy))"

text \<open>The component from its \<open>hall\<close> property to the brands it lists, in the order of the
  list; without a hall it shows a placeholder and no list.\<close>

definition Sidebar ::
  "(jsstring \<Rightarrow> jsstring \<Rightarrow> int) \<Rightarrow> ('f, 't, 'm) heap \<Rightarrow> addr option \<Rightarrow> ('f, 't, 'm) heap \<times> brand list option" where
  "Sidebar localeCompare h hallProp =
     (case hallProp of
        None \<Rightarrow> (h, None)
      | Some hall \<Rightarrow>
          (let (h', sorted) = sortedBrands localeCompare h hall
           in (h', Some (map (\<lambda>b. brandObjs h' ! b) (arrays h' ! sorted)))))"

section \<open>Derived notions used in the statements and proofs\<close>

subsection \<open>What a row addresses and what it does to its Brand\<close>

text \<open>The codes of the working halls, in array order, and those of the skeleton's halls.
  They are the same lists (lemma \<open>codesOf_init\<close>).\<close>

definition codesOf :: "('f, 't, 'm, 'x) pstate_scheme \<Rightarrow> jsstring list" where
  "codesOf st = map (\<lambda>a. code (hallObjs st ! a)) (updatedHalls st)"

definition skeletonCodes :: "('f, 't, 'm) heap \<Rightarrow> addr list \<Rightarrow> jsstring list" where
  "skeletonCodes h skeletonHalls = map (\<lambda>a. code (hallObjs h ! a)) skeletonHalls"

text \<open>Which hall and which Brand a row addresses: the index that \<open>findIndex\<close> returns for
  its hall code, and the composite id of line 39; \<open>None\<close> for a row that the loop leaves
  at one of its two early returns (fewer than three fields, no hall of that code).\<close>

definition rowTarget :: "jsstring list \<Rightarrow> jsstring \<Rightarrow> (nat \<times> jsstring) option" where
  "rowTarget codes row =
     (let cols = parse_cols row in
      if length cols < 3 then None
      else map_option (\<lambda>i. (i, cols ! 0 @ [hyphen] @ cols ! 1)) (findIndex (\<lambda>c. c = cols ! 0) codes))"

text \<open>What the dispatch of lines 55 to 79 does to the Brand object it is given, as a
  function on Brands (lemma \<open>applyCategory_updBrand\<close>), and the same for the fields of a
  row.\<close>

definition brandUpdate :: "jsval \<Rightarrow> jsval \<Rightarrow> jsval \<Rightarrow> jsval \<Rightarrow> brand \<Rightarrow> brand" where
  "brandUpdate category modelName tag noteField x =
     (if category = Some (js ''Info'') then
        (if truthy noteField then x\<lparr>description := the noteField\<rparr> else x)
      else if category = Some (js ''Key'') then
        (if truthy modelName then
           x\<lparr>models := models x @
              [\<lparr>model_name = the modelName, highlight = orEmpty tag,
                isNewLaunch = True, model_note = noteField\<rparr>]\<rparr>
         else x)
      else if category = Some (js ''Normal'') then
        (if truthy modelName then
           x\<lparr>fullModelList := fullModelList x @
              [\<lparr>model_name = the modelName, highlight = orEmpty tag,
                isNewLaunch = False, model_note = noteField\<rparr>]\<rparr>
         else x)
      else x)"

definition rowUpdate :: "jsstring \<Rightarrow> brand \<Rightarrow> brand" where
  "rowUpdate row =
     (let cols = parse_cols row
      in brandUpdate (nth_opt cols 3) (nth_opt cols 4) (nth_opt cols 5) (nth_opt cols 6))"

text \<open>The Brand object that \<open>brandMap\<close> holds for an id.\<close>

definition brandById :: "('f, 't, 'm, 'x) pstate_scheme \<Rightarrow> jsstring \<Rightarrow> brand option" where
  "brandById st k = map_option (\<lambda>b. brandObjs st ! b) (brandMap st k)"

subsection \<open>The heap before and after\<close>

text \<open>The skeleton is an array of addresses of hall objects of the heap.\<close>

definition validSkeleton :: "('f, 't, 'm) heap \<Rightarrow> addr list \<Rightarrow> bool" where
  "validSkeleton h skeletonHalls \<longleftrightarrow> (\<forall>a\<in>set skeletonHalls. a < length (hallObjs h))"

text \<open>The brand lists of a returned collection, hall by hall.\<close>

definition collectionBrands :: "('f, 't, 'm) heap \<times> addr list \<Rightarrow> brand list list" where
  "collectionBrands r = map (brandsOf (fst r)) (snd r)"

text \<open>Every object of the heap \<open>h\<close> is the same object in \<open>h'\<close>: \<open>h'\<close> has, at most,
  more objects.\<close>

definition unchangedFrom :: "('f, 't, 'm) heap \<Rightarrow> ('f, 't, 'm) heap \<Rightarrow> bool" where
  "unchangedFrom h h' \<longleftrightarrow>
     take (length (hallObjs h)) (hallObjs h') = hallObjs h \<and>
     take (length (arrays h)) (arrays h') = arrays h \<and>
     take (length (brandObjs h)) (brandObjs h') = brandObjs h"

text \<open>The halls that \<open>cloneHalls\<close> allocates (lemma \<open>cloneHalls_eq\<close>).\<close>

definition newHalls :: "('f, 't, 'm) heap \<Rightarrow> addr list \<Rightarrow> ('f, 't, 'm) hall_scheme list" where
  "newHalls h skel = map (\<lambda>(a, i). (hallObjs h ! a)\<lparr>brands := i\<rparr>)
            (zip skel [length (arrays h)..<length (arrays h) + length skel])"

text \<open>
  Invariants of the loop, relative to the number \<open>na\<close> of arrays and \<open>nb\<close> of Brand
  objects that existed before the call: each working hall has its own new array; the map
  sends an id to a new Brand object that carries this id, and every new Brand object is
  in the map; the new arrays together hold every new Brand object once.
\<close>

definition halls_ok :: "nat \<Rightarrow> ('f, 't, 'm, 'x) pstate_scheme \<Rightarrow> bool" where
  "halls_ok na st \<longleftrightarrow>
     length (arrays st) = na + length (updatedHalls st) \<and>
     (\<forall>i<length (updatedHalls st). brands (hallObjs st ! (updatedHalls st ! i)) = na + i)"

definition map_ok :: "nat \<Rightarrow> ('f, 't, 'm, 'x) pstate_scheme \<Rightarrow> bool" where
  "map_ok nb st \<longleftrightarrow>
     nb \<le> length (brandObjs st) \<and>
     (\<forall>k b. brandMap st k = Some b \<longrightarrow>
        nb \<le> b \<and> b < length (brandObjs st) \<and> brand_id (brandObjs st ! b) = k) \<and>
     (\<forall>b. nb \<le> b \<and> b < length (brandObjs st) \<longrightarrow>
        brandMap st (brand_id (brandObjs st ! b)) = Some b)"

definition arrays_ok :: "nat \<Rightarrow> nat \<Rightarrow> ('f, 't, 'm, 'x) pstate_scheme \<Rightarrow> bool" where
  "arrays_ok na nb st \<longleftrightarrow>
     distinct (concat (drop na (arrays st))) \<and>
     set (concat (drop na (arrays st))) = {nb..<length (brandObjs st)}"

definition pinv :: "nat \<Rightarrow> nat \<Rightarrow> ('f, 't, 'm, 'x) pstate_scheme \<Rightarrow> bool" where
  "pinv na nb st \<longleftrightarrow> halls_ok na st \<and> map_ok nb st \<and> arrays_ok na nb st"

subsection \<open>Comparators\<close>

text \<open>What the language requires of \<open>localeCompare\<close> and of any function given to
  \<open>sort\<close>: the order it induces is total and transitive.\<close>

definition consistentComparator :: "('a \<Rightarrow> 'a \<Rightarrow> int) \<Rightarrow> bool" where
  "consistentComparator cmp \<longleftrightarrow>
     (\<forall>a b. cmp a b \<le> 0 \<or> cmp b a \<le> 0) \<and>
     (\<forall>a b c. cmp a b \<le> 0 \<and> cmp b c \<le> 0 \<longrightarrow> cmp a c \<le> 0)"

text \<open>One such function: the comparison of two strings code unit by code unit.\<close>

fun lexCompare :: "jsstring \<Rightarrow> jsstring \<Rightarrow> int" where
  "lexCompare [] [] = 0"
| "lexCompare [] (y # ys) = - 1"
| "lexCompare (x # xs) [] = 1"
| "lexCompare (x # xs) (y # ys) =
     (if x < y then - 1 else if y < x then 1 else lexCompare xs ys)"

subsection \<open>Example data\<close>

text \<open>
  A heap with a skeleton of three halls, at the addresses 0, 1 and 2, of which the first
  has one Brand, and a heap with one hall whose two brands were pushed in the order
  \<open>B02\<close>, \<open>A01\<close>.
\<close>

definition demoHeap :: "(nat, nat, unit) heap" where
  "demoHeap =
     \<lparr>hallObjs =
        [\<lparr>hall_id = js ''h1'', code = js ''17.2'', floor = 1, type = 0, brands = 0\<rparr>,
         \<lparr>hall_id = js ''h2'', code = js ''A-B'', floor = 2, type = 1, brands = 1\<rparr>,
         \<lparr>hall_id = js ''h3'', code = js ''A'', floor = 2, type = 1, brands = 2\<rparr>],
      arrays = [[0], [], []],
      brandObjs =
        [\<lparr>brand_id = js ''17.2-Z9'', booth = js ''Z9'', name = js ''Old'',
          description = js ''stale'', models = [], fullModelList = []\<rparr>]\<rparr>"

definition panelHeap :: "(nat, nat, unit) heap" where
  "panelHeap =
     \<lparr>hallObjs = [\<lparr>hall_id = js ''h1'', code = js ''17.2'', floor = 1, type = 0, brands = 0\<rparr>],
      arrays = [[0, 1]],
      brandObjs =
        [\<lparr>brand_id = js ''17.2-B02'', booth = js ''B02'', name = js ''Second'',
          description = [], models = [], fullModelList = []\<rparr>,
         \<lparr>brand_id = js ''17.2-A01'', booth = js ''A01'', name = js ''First'',
          description = [], models = [], fullModelList = []\<rparr>]\<rparr>"

section \<open>Facts about strings and the splitter\<close>

lemma split_at_not_Nil: "split_at p s \<noteq> []"
  by (induction s) (auto simp: neq_Nil_conv split: list.splits elim: cons_first.elims)

subsection \<open>The lookahead counts quotes\<close>

text \<open>The lookahead succeeds exactly when the rest of the row has an even number of double
  quotes, which is what the comment of line 20 says.\<close>

lemma count_dropWhile_ne: "count_list (dropWhile (\<lambda>c. c \<noteq> q) s) q = count_list s q"
  by (induction s) auto

lemma lookahead_even: "lookahead s \<longleftrightarrow> even (count_list s dquote)"
proof (induction s rule: lookahead.induct)
  case (1 s)
  show ?case
  proof (cases "dropWhile (\<lambda>c. c \<noteq> dquote) s")
    case Nil
    have "count_list (dropWhile (\<lambda>c. c \<noteq> dquote) s) dquote = 0"
      by (simp only: Nil count_list.simps)
    then have "count_list s dquote = 0"
      by (simp only: count_dropWhile_ne)
    moreover have "lookahead s"
      by (subst lookahead.simps) (simp only: Nil list.case)
    ultimately show ?thesis by simp
  next
    case outer: (Cons q1 r)
    then have q1: "q1 = dquote" using hd_dropWhile [of "\<lambda>c. c \<noteq> dquote" s] by auto
    have "count_list (dropWhile (\<lambda>c. c \<noteq> dquote) s) dquote = Suc (count_list r dquote)"
      by (simp only: outer q1 count_list.simps) simp
    then have cs: "count_list s dquote = Suc (count_list r dquote)"
      by (simp only: count_dropWhile_ne)
    show ?thesis
    proof (cases "dropWhile (\<lambda>c. c \<noteq> dquote) r")
      case Nil
      have "count_list (dropWhile (\<lambda>c. c \<noteq> dquote) r) dquote = 0"
        by (simp only: Nil count_list.simps)
      then have "count_list r dquote = 0"
        by (simp only: count_dropWhile_ne)
      moreover have "\<not> lookahead s"
        by (subst lookahead.simps) (simp only: outer Nil list.case, simp)
      ultimately show ?thesis using cs by simp
    next
      case inner: (Cons q2 r')
      then have q2: "q2 = dquote" using hd_dropWhile [of "\<lambda>c. c \<noteq> dquote" r] by auto
      have "count_list (dropWhile (\<lambda>c. c \<noteq> dquote) r) dquote = Suc (count_list r' dquote)"
        by (simp only: inner q2 count_list.simps) simp
      then have cr: "count_list r dquote = Suc (count_list r' dquote)"
        by (simp only: count_dropWhile_ne)
      have "lookahead s = lookahead r'"
        by (subst lookahead.simps) (simp only: outer inner list.case)
      also have "\<dots> = even (count_list r' dquote)"
        using "1.IH" [OF outer inner] .
      finally show ?thesis using cs cr by simp
    qed
  qed
qed

lemma row_sep_iff: "row_sep c rest \<longleftrightarrow> c = comma \<and> even (count_list rest dquote)"
  by (simp add: row_sep_def lookahead_even)

lemma cons_first_append: "xs \<noteq> [] \<Longrightarrow> cons_first c (xs @ ys) = cons_first c xs @ ys"
  by (cases xs) auto

lemma comma_ne_dquote [simp]: "comma \<noteq> dquote" "dquote \<noteq> comma"
  by (simp_all add: comma_def dquote_def)

text \<open>A comma followed by an even number of quotes cuts the row in two rows.\<close>
lemma split_row_comma:
  "even (count_list ys dquote) \<Longrightarrow> split_row (xs @ comma # ys) = split_row xs @ split_row ys"
  unfolding split_row_def
  by (induction xs) (auto simp: row_sep_iff cons_first_append split_at_not_Nil)

text \<open>No comma of a piece that is followed by an odd number of quotes separates.\<close>
lemma split_row_inside:
  "odd (count_list ys dquote) \<Longrightarrow> dquote \<notin> set xs \<Longrightarrow>
     split_row (xs @ ys) = (xs @ hd (split_row ys)) # tl (split_row ys)"
  unfolding split_row_def
proof (induction xs)
  case Nil
  then show ?case using split_at_not_Nil [of row_sep ys] by simp
next
  case (Cons x xs)
  then have "\<not> row_sep x (xs @ ys)" by (auto simp: row_sep_iff)
  with Cons show ?case by simp
qed

lemma replace_dq_id: "dquote \<notin> set s \<Longrightarrow> replace_dq s = s"
  by (induction s rule: replace_dq.induct) auto

lemma not_ws_dquote [simp]: "\<not> isWhiteSpace dquote"
  by (simp add: isWhiteSpace_def dquote_def)

lemma dropWhile_hd: "s \<noteq> [] \<Longrightarrow> \<not> P (hd s) \<Longrightarrow> dropWhile P s = s"
  by (cases s) auto

lemma trim_id: "s \<noteq> [] \<Longrightarrow> \<not> isWhiteSpace (hd s) \<Longrightarrow> \<not> isWhiteSpace (last s) \<Longrightarrow> trim s = s"
  by (simp add: trim_def dropWhile_hd hd_rev)

lemma normalize_quoted: "dquote \<notin> set s \<Longrightarrow> normalize_field (dquote # s @ [dquote]) = s"
  by (simp add: normalize_field_def trim_id startsWith_def endsWith_def slice_1_m1_def replace_dq_id Let_def)

subsection \<open>The splitter and the scanner of the specification\<close>

lemma split_row_Nil [simp]: "split_row [] = [[]]"
  by (simp add: split_row_def)

lemma split_row_Cons:
  "split_row (c # cs) =
     (if c = comma \<and> even (count_list cs dquote) then [] # split_row cs
      else cons_first c (split_row cs))"
  by (simp add: split_row_def row_sep_iff)

lemma split_row_not_Nil: "split_row s \<noteq> []"
  by (simp add: split_row_def split_at_not_Nil)

lemma split_row_spec: "split_row s = spec_split (odd (count_list s dquote)) s"
  by (induction s) (auto simp: split_row_Cons)

lemma split_row_quoted:
  assumes "dquote \<notin> set s" and "even (count_list post dquote)" and "post = [] \<or> hd post = comma"
  shows "split_row (dquote # s @ dquote # post) =
           (dquote # s @ [dquote]) # (if post = [] then [] else split_row (tl post))"
proof -
  have tail: "split_row (dquote # post) = [dquote] # (if post = [] then [] else split_row (tl post))"
  proof (cases post)
    case Nil
    then show ?thesis by (simp add: split_row_Cons)
  next
    case (Cons c post')
    with assms have "c = comma" "even (count_list post' dquote)" by auto
    with Cons show ?thesis by (simp add: split_row_Cons)
  qed
  have "odd (count_list (dquote # post) dquote)" using assms(2) by simp
  then have "split_row (s @ dquote # post) =
      (s @ hd (split_row (dquote # post))) # tl (split_row (dquote # post))"
    using assms(1) by (rule split_row_inside)
  then have "split_row (s @ dquote # post) =
      (s @ [dquote]) # (if post = [] then [] else split_row (tl post))"
    by (simp only: tail list.sel)
  then show ?thesis by (simp add: split_row_Cons)
qed

lemma js_simps [simp]: "js [] = []" "js (c # cs) = of_char c # js cs"
  by (simp_all add: js_def)

lemma count_list_append: "count_list (xs @ ys) a = count_list xs a + count_list ys a"
  by (induction xs) auto

subsection \<open>The normalization and the words of the specification\<close>

lemma normalize_field_spec: "trim c \<noteq> [dquote] \<Longrightarrow> normalize_field c = spec_normalize c"
proof -
  assume a: "trim c \<noteq> [dquote]"
  show ?thesis
  proof (cases "trim c")
    case Nil
    then show ?thesis
      by (simp add: normalize_field_def spec_normalize_def spec_strip_pair_def startsWith_def)
  next
    case (Cons x xs)
    show ?thesis
    proof (cases "xs = []")
      case True
      with Cons a show ?thesis
        by (simp add: normalize_field_def spec_normalize_def spec_strip_pair_def
            startsWith_def endsWith_def)
    next
      case False
      then obtain y ys where "rev xs = y # ys" by (cases "rev xs") auto
      with Cons False show ?thesis
        by (simp add: normalize_field_def spec_normalize_def spec_strip_pair_def
            startsWith_def endsWith_def slice_1_m1_def Let_def)
    qed
  qed
qed

section \<open>Facts about the loop\<close>

subsection \<open>The three ways through the body of the loop\<close>

text \<open>A row is skipped, or it meets the Brand that the map holds for its id, or it creates
  the Brand; the state after it is written out for each.\<close>

lemma findIndex_map: "findIndex P (map f xs) = findIndex (\<lambda>x. P (f x)) xs"
  by (induction xs) auto

lemma findIndex_Some:
  "findIndex P xs = Some i \<Longrightarrow> i < length xs \<and> P (xs ! i) \<and> (\<forall>j<i. \<not> P (xs ! j))"
proof (induction xs arbitrary: i)
  case Nil
  then show ?case by simp
next
  case (Cons x xs)
  show ?case
  proof (cases "P x")
    case True
    with Cons.prems show ?thesis by simp
  next
    case False
    with Cons.prems obtain j where j: "findIndex P xs = Some j" "i = Suc j" by auto
    from Cons.IH [OF j(1)] False j(2) show ?thesis
      by (auto simp: nth_Cons split: nat.splits)
  qed
qed

lemma findIndex_None: "findIndex P xs = None \<longleftrightarrow> (\<forall>x\<in>set xs. \<not> P x)"
  by (induction xs) auto

lemma applyCategory_updBrand:
  "applyCategory b c m t n st = updBrand (brandUpdate c m t n) b st"
  by (simp add: applyCategory_def brandUpdate_def updBrand_def)

lemma brandUpdate_keeps [simp]:
  "brand_id (brandUpdate c m t n x) = brand_id x"
  "booth (brandUpdate c m t n x) = booth x"
  "name (brandUpdate c m t n x) = name x"
  by (simp_all add: brandUpdate_def)

lemma rowUpdate_keeps [simp]:
  "brand_id (rowUpdate row x) = brand_id x"
  "booth (rowUpdate row x) = booth x"
  "name (rowUpdate row x) = name x"
  by (simp_all add: rowUpdate_def Let_def)

lemma processRow_skip:
  "rowTarget (codesOf st) row = None \<Longrightarrow> processRow st row = st"
  by (auto simp: rowTarget_def codesOf_def processRow_def Let_def findIndex_map split: if_splits)

lemma processRow_existing:
  assumes "rowTarget (codesOf st) row = Some (i, k)" and "brandMap st k = Some b"
  shows "processRow st row = st\<lparr>brandObjs := (brandObjs st)[b := rowUpdate row (brandObjs st ! b)]\<rparr>"
  using assms
  by (auto simp: rowTarget_def codesOf_def processRow_def Let_def findIndex_map rowUpdate_def
      getOrCreateBrand_def applyCategory_updBrand updBrand_def split: if_splits)

lemma processRow_new:
  assumes "rowTarget (codesOf st) row = Some (i, k)" and "brandMap st k = None"
  shows "processRow st row =
     st\<lparr>brandObjs := brandObjs st @
           [rowUpdate row (newBrand k (parse_cols row ! 1) (parse_cols row ! 2))],
        brandMap := (brandMap st)(k \<mapsto> length (brandObjs st)),
        arrays := (arrays st)[brands (hallObjs st ! (updatedHalls st ! i)) :=
           arrays st ! brands (hallObjs st ! (updatedHalls st ! i)) @ [length (brandObjs st)]]\<rparr>"
  using assms
  by (auto simp: rowTarget_def codesOf_def processRow_def Let_def findIndex_map rowUpdate_def
      getOrCreateBrand_def applyCategory_updBrand updBrand_def newBrand_def split: if_splits)

lemma processRow_static [simp]:
  "hallObjs (processRow st row) = hallObjs st"
  "updatedHalls (processRow st row) = updatedHalls st"
  "length (arrays (processRow st row)) = length (arrays st)"
proof -
  consider "rowTarget (codesOf st) row = None"
    | i k b where "rowTarget (codesOf st) row = Some (i, k)" "brandMap st k = Some b"
    | i k where "rowTarget (codesOf st) row = Some (i, k)" "brandMap st k = None"
    by (cases "rowTarget (codesOf st) row") (auto, metis not_Some_eq)
  then have "hallObjs (processRow st row) = hallObjs st \<and>
     updatedHalls (processRow st row) = updatedHalls st \<and>
     length (arrays (processRow st row)) = length (arrays st)"
    by cases (simp_all add: processRow_skip processRow_existing processRow_new)
  then show "hallObjs (processRow st row) = hallObjs st"
    "updatedHalls (processRow st row) = updatedHalls st"
    "length (arrays (processRow st row)) = length (arrays st)" by simp_all
qed

lemma codesOf_processRow [simp]: "codesOf (processRow st row) = codesOf st"
  by (simp add: codesOf_def)

lemma foldl_processRow_static [simp]:
  "hallObjs (foldl processRow st rows) = hallObjs st"
  "updatedHalls (foldl processRow st rows) = updatedHalls st"
  "length (arrays (foldl processRow st rows)) = length (arrays st)"
  "codesOf (foldl processRow st rows) = codesOf st"
  by (induction rows arbitrary: st) simp_all

subsection \<open>The invariants hold after every row\<close>

lemma rowTarget_index:
  "rowTarget (codesOf st) row = Some (i, k) \<Longrightarrow> i < length (updatedHalls st)"
  by (auto simp: rowTarget_def codesOf_def Let_def split: if_splits dest!: findIndex_Some)

lemma row_cases:
  obtains (skip) "rowTarget (codesOf st) row = None"
  | (existing) i k b where "rowTarget (codesOf st) row = Some (i, k)" "brandMap st k = Some b"
  | (new) i k where "rowTarget (codesOf st) row = Some (i, k)" "brandMap st k = None"
  by (cases "rowTarget (codesOf st) row") (auto, metis not_Some_eq)

lemma nth_rowUpdate_keeps [simp]:
  "brand_id (xs[b := rowUpdate row (xs ! b)] ! c) = brand_id (xs ! c)"
  "booth (xs[b := rowUpdate row (xs ! b)] ! c) = booth (xs ! c)"
  "name (xs[b := rowUpdate row (xs ! b)] ! c) = name (xs ! c)"
proof -
  have "c = b \<and> b < length xs \<or> xs[b := rowUpdate row (xs ! b)] ! c = xs ! c"
    by (cases "b < length xs") (auto simp: nth_list_update list_update_beyond)
  then show "brand_id (xs[b := rowUpdate row (xs ! b)] ! c) = brand_id (xs ! c)"
    "booth (xs[b := rowUpdate row (xs ! b)] ! c) = booth (xs ! c)"
    "name (xs[b := rowUpdate row (xs ! b)] ! c) = name (xs ! c)"
    by auto
qed

lemma halls_ok_processRow: "halls_ok na st \<Longrightarrow> halls_ok na (processRow st row)"
  by (simp add: halls_ok_def)

lemma map_ok_processRow:
  assumes "map_ok nb st"
  shows "map_ok nb (processRow st row)"
proof (cases rule: row_cases [of st row])
  case skip
  with assms show ?thesis by (simp add: processRow_skip)
next
  case (existing i k b)
  have "map_ok nb (st\<lparr>brandObjs := (brandObjs st)[b := rowUpdate row (brandObjs st ! b)]\<rparr>)"
    using assms unfolding map_ok_def by simp
  then show ?thesis by (simp add: processRow_existing [OF existing])
next
  case (new i k)
  have fresh: "\<forall>b. nb \<le> b \<and> b < length (brandObjs st) \<longrightarrow> brand_id (brandObjs st ! b) \<noteq> k"
    using assms new(2) unfolding map_ok_def by auto
  have "map_ok nb (st\<lparr>brandObjs := brandObjs st @
           [rowUpdate row (newBrand k (parse_cols row ! 1) (parse_cols row ! 2))],
        brandMap := (brandMap st)(k \<mapsto> length (brandObjs st)),
        arrays := (arrays st)[brands (hallObjs st ! (updatedHalls st ! i)) :=
           arrays st ! brands (hallObjs st ! (updatedHalls st ! i)) @ [length (brandObjs st)]]\<rparr>)"
    using assms fresh unfolding map_ok_def
    by (auto simp: nth_append newBrand_def less_Suc_eq)
  then show ?thesis by (simp add: processRow_new [OF new])
qed

lemma concat_update_append:
  assumes "i < length ys"
  shows "concat (ys[i := ys ! i @ [x]]) =
           concat (take i ys) @ ys ! i @ [x] @ concat (drop (Suc i) ys)"
    and "concat ys = concat (take i ys) @ ys ! i @ concat (drop (Suc i) ys)"
proof -
  show "concat (ys[i := ys ! i @ [x]]) =
           concat (take i ys) @ ys ! i @ [x] @ concat (drop (Suc i) ys)"
    using assms by (simp add: upd_conv_take_nth_drop)
  have "concat ys = concat (take i ys @ ys ! i # drop (Suc i) ys)"
    using assms by (simp add: id_take_nth_drop [symmetric])
  then show "concat ys = concat (take i ys) @ ys ! i @ concat (drop (Suc i) ys)" by simp
qed

lemma set_concat_update_append:
  "i < length ys \<Longrightarrow> set (concat (ys[i := ys ! i @ [x]])) = insert x (set (concat ys))"
proof -
  assume i: "i < length ys"
  have e: "concat ys = concat (take i ys) @ ys ! i @ concat (drop (Suc i) ys)"
    using i by (rule concat_update_append(2))
  have "set (concat ys) = set (concat (take i ys) @ ys ! i @ concat (drop (Suc i) ys))"
    using e by simp
  then show ?thesis
    unfolding concat_update_append(1) [OF i] by (auto simp del: set_concat)
qed

lemma distinct_concat_update_append:
  "i < length ys \<Longrightarrow> distinct (concat ys) \<Longrightarrow> x \<notin> set (concat ys) \<Longrightarrow>
     distinct (concat (ys[i := ys ! i @ [x]]))"
proof -
  assume i: "i < length ys" and d: "distinct (concat ys)" and x: "x \<notin> set (concat ys)"
  have e: "concat ys = concat (take i ys) @ ys ! i @ concat (drop (Suc i) ys)"
    using i by (rule concat_update_append(2))
  from d x show ?thesis
    unfolding concat_update_append(1) [OF i] using e by (auto simp del: set_concat)
qed

lemma arrays_ok_processRow:
  assumes "halls_ok na st" and "arrays_ok na nb st" and "nb \<le> length (brandObjs st)"
  shows "arrays_ok na nb (processRow st row)"
proof (cases rule: row_cases [of st row])
  case skip
  with assms show ?thesis by (simp add: processRow_skip)
next
  case (existing i k b)
  with assms show ?thesis by (simp add: processRow_existing [OF existing] arrays_ok_def)
next
  case (new i k)
  have i: "i < length (updatedHalls st)" using new(1) by (rule rowTarget_index)
  with assms(1) have arr: "brands (hallObjs st ! (updatedHalls st ! i)) = na + i"
    and len: "length (arrays st) = na + length (updatedHalls st)"
    by (simp_all add: halls_ok_def)
  let ?ys = "drop na (arrays st)"
  have i': "i < length ?ys" using i len by simp
  have upd: "drop na ((arrays st)[na + i := arrays st ! (na + i) @ [length (brandObjs st)]]) =
      ?ys[i := ?ys ! i @ [length (brandObjs st)]]"
    using i len by (simp add: drop_update_swap)
  have notin: "length (brandObjs st) \<notin> set (concat ?ys)"
    using assms(2) unfolding arrays_ok_def by (simp del: set_concat)
  have "distinct (concat (?ys[i := ?ys ! i @ [length (brandObjs st)]]))"
    using i' assms(2) notin unfolding arrays_ok_def
    by (intro distinct_concat_update_append) simp_all
  moreover have "set (concat (?ys[i := ?ys ! i @ [length (brandObjs st)]])) =
      {nb..<Suc (length (brandObjs st))}"
    using assms(2,3) notin unfolding arrays_ok_def set_concat_update_append [OF i']
    by (auto simp del: set_concat simp: less_Suc_eq)
  ultimately show ?thesis
    by (simp add: processRow_new [OF new] arrays_ok_def arr upd del: set_concat)
qed

lemma pinv_processRow:
  assumes "pinv na nb st"
  shows "pinv na nb (processRow st row)"
proof -
  from assms have h: "halls_ok na st" and m: "map_ok nb st" and a: "arrays_ok na nb st"
    by (simp_all add: pinv_def)
  from m have "nb \<le> length (brandObjs st)" by (simp add: map_ok_def)
  with h a have "arrays_ok na nb (processRow st row)" by (rule arrays_ok_processRow)
  with h m show ?thesis
    by (simp add: pinv_def halls_ok_processRow map_ok_processRow)
qed

lemma pinv_foldl: "pinv na nb st \<Longrightarrow> pinv na nb (foldl processRow st rows)"
proof (induction rows arbitrary: st)
  case Nil
  then show ?case by (simp only: foldl_Nil)
next
  case (Cons r rows)
  from Cons.prems have "pinv na nb (processRow st r)" by (rule pinv_processRow)
  then have "pinv na nb (foldl processRow (processRow st r) rows)" by (rule Cons.IH)
  then show ?case by (simp only: foldl_Cons)
qed

subsection \<open>The copy of the skeleton\<close>

lemma cloneHalls_eq:
  assumes "\<forall>a\<in>set skel. a < length (hallObjs h)"
  shows "cloneHalls h skel =
     (h\<lparr>arrays := arrays h @ replicate (length skel) [],
        hallObjs := hallObjs h @
          map (\<lambda>(a, i). (hallObjs h ! a)\<lparr>brands := i\<rparr>)
            (zip skel [length (arrays h)..<length (arrays h) + length skel])\<rparr>,
      [length (hallObjs h)..<length (hallObjs h) + length skel])"
  using assms
proof (induction skel arbitrary: h)
  case Nil
  then show ?case by simp
next
  case (Cons a rest)
  let ?h2 = "h\<lparr>arrays := arrays h @ [[]],
      hallObjs := hallObjs h @ [(hallObjs h ! a)\<lparr>brands := length (arrays h)\<rparr>]\<rparr>"
  have valid: "\<forall>x\<in>set rest. x < length (hallObjs ?h2)" using Cons.prems by auto
  have same: "map (\<lambda>(x, i). ((hallObjs h @ [y]) ! x)\<lparr>brands := i\<rparr>) (zip rest is) =
      map (\<lambda>(x, i). (hallObjs h ! x)\<lparr>brands := i\<rparr>) (zip rest is)" for "is" y
  proof (rule map_cong [OF refl])
    fix p assume "p \<in> set (zip rest is)"
    then have "(fst p, snd p) \<in> set (zip rest is)" by simp
    then have "fst p \<in> set rest" by (rule set_zip_leftD)
    with Cons.prems have "fst p < length (hallObjs h)" by simp
    then show "(case p of (x, i) \<Rightarrow> ((hallObjs h @ [y]) ! x)\<lparr>brands := i\<rparr>) =
        (case p of (x, i) \<Rightarrow> (hallObjs h ! x)\<lparr>brands := i\<rparr>)"
      by (cases p) (simp add: nth_append)
  qed
  have upt1: "[length (arrays h)..<Suc (length (arrays h) + length rest)] =
      length (arrays h) # [Suc (length (arrays h))..<Suc (length (arrays h) + length rest)]"
    by (rule upt_conv_Cons) simp
  have upt2: "[length (hallObjs h)..<Suc (length (hallObjs h) + length rest)] =
      length (hallObjs h) # [Suc (length (hallObjs h))..<Suc (length (hallObjs h) + length rest)]"
    by (rule upt_conv_Cons) simp
  have step: "cloneHalls h (a # rest) =
      (case cloneHalls ?h2 rest of (h3, news) \<Rightarrow> (h3, length (hallObjs h) # news))"
    by (simp add: Let_def)
  show ?case
    unfolding step Cons.IH [OF valid]
    by (simp add: same upt1 upt2 replicate_app_Cons_same del: upt_Suc)
qed

lemma initState_eq:
  assumes "\<forall>a\<in>set skel. a < length (hallObjs h)"
  shows "initState h skel =
     \<lparr>hallObjs = hallObjs h @ newHalls h skel,
      arrays = arrays h @ replicate (length skel) [],
      brandObjs = brandObjs h,
      updatedHalls = [length (hallObjs h)..<length (hallObjs h) + length skel],
      brandMap = Map.empty\<rparr>"
  by (simp add: initState_def cloneHalls_eq [OF assms] newHalls_def)

lemma length_newHalls [simp]: "length (newHalls h skel) = length skel"
  by (simp add: newHalls_def)

lemma nth_newHalls:
  "i < length skel \<Longrightarrow> newHalls h skel ! i = (hallObjs h ! (skel ! i))\<lparr>brands := length (arrays h) + i\<rparr>"
  by (simp add: newHalls_def)

lemma pinv_initState:
  assumes "\<forall>a\<in>set skel. a < length (hallObjs h)"
  shows "pinv (length (arrays h)) (length (brandObjs h)) (initState h skel)"
  unfolding initState_eq [OF assms] pinv_def halls_ok_def map_ok_def arrays_ok_def
  by (simp add: nth_append nth_newHalls)

lemma codesOf_initState:
  assumes "\<forall>a\<in>set skel. a < length (hallObjs h)"
  shows "codesOf (initState h skel) = map (\<lambda>a. code (hallObjs h ! a)) skel"
  unfolding initState_eq [OF assms] codesOf_def
  by (rule nth_equalityI) (simp_all add: nth_append nth_newHalls)

subsection \<open>Rows that change nothing\<close>

lemma split_nl_append:
  "split_at (\<lambda>c rest. c = sep) (xs @ sep # ys) =
     split_at (\<lambda>c rest. c = sep) xs @ split_at (\<lambda>c rest. c = sep) ys"
  by (induction xs) (auto simp: cons_first_append split_at_not_Nil)

lemma split_nl_single: "sep \<notin> set row \<Longrightarrow> split_at (\<lambda>c rest. c = sep) row = [row]"
  by (induction row) auto

lemma rowsOf_line:
  assumes "newline \<notin> set row"
  shows "rowsOf (pre @ newline # row @ newline # post) =
           filter (\<lambda>r. trim r \<noteq> []) (drop 1 (split_at (\<lambda>c rest. c = newline) pre)) @
           (if trim row \<noteq> [] then [row] else []) @
           filter (\<lambda>r. trim r \<noteq> []) (split_at (\<lambda>c rest. c = newline) post)"
    and "rowsOf (pre @ newline # post) =
           filter (\<lambda>r. trim r \<noteq> []) (drop 1 (split_at (\<lambda>c rest. c = newline) pre)) @
           filter (\<lambda>r. trim r \<noteq> []) (split_at (\<lambda>c rest. c = newline) post)"
proof -
  let ?sp = "split_at (\<lambda>c rest. c = newline)"
  have d: "drop 1 (?sp pre @ zs) = drop 1 (?sp pre) @ zs" for zs
    using split_at_not_Nil [of "\<lambda>c rest. c = newline" pre] by (cases "?sp pre") auto
  have "?sp (pre @ newline # row @ newline # post) = ?sp pre @ ([row] @ ?sp post)"
    using assms by (simp add: split_nl_append split_nl_single)
  then have "rowsOf (pre @ newline # row @ newline # post) =
      filter (\<lambda>r. trim r \<noteq> []) (drop 1 (?sp pre) @ ([row] @ ?sp post))"
    by (simp only: rowsOf_def d)
  then show "rowsOf (pre @ newline # row @ newline # post) =
           filter (\<lambda>r. trim r \<noteq> []) (drop 1 (?sp pre)) @
           (if trim row \<noteq> [] then [row] else []) @
           filter (\<lambda>r. trim r \<noteq> []) (?sp post)"
    by simp
  have "rowsOf (pre @ newline # post) = filter (\<lambda>r. trim r \<noteq> []) (drop 1 (?sp pre) @ ?sp post)"
    by (simp only: rowsOf_def split_nl_append d)
  then show "rowsOf (pre @ newline # post) =
           filter (\<lambda>r. trim r \<noteq> []) (drop 1 (?sp pre)) @ filter (\<lambda>r. trim r \<noteq> []) (?sp post)"
    by simp
qed

lemma foldl_skip:
  fixes st0 :: "('f, 't, 'm) pstate"
  assumes "\<And>st :: ('f, 't, 'm) pstate. codesOf st = cs \<Longrightarrow> processRow st row = st"
    and "codesOf st0 = cs"
  shows "foldl processRow st0 (before @ row # after) = foldl processRow st0 (before @ after)"
proof -
  have "codesOf (foldl processRow st0 before) = cs" using assms(2) by simp
  then have "processRow (foldl processRow st0 before) row = foldl processRow st0 before"
    by (rule assms(1))
  then show ?thesis by simp
qed

lemma rowTarget_short: "length (parse_cols row) < 3 \<Longrightarrow> rowTarget cs row = None"
  by (simp add: rowTarget_def)

lemma rowTarget_unknown: "hd (parse_cols row) \<notin> set cs \<Longrightarrow> rowTarget cs row = None"
proof -
  assume a: "hd (parse_cols row) \<notin> set cs"
  have ne: "parse_cols row \<noteq> []" by (simp add: parse_cols_def split_row_not_Nil)
  then have "parse_cols row ! 0 = hd (parse_cols row)" by (simp add: hd_conv_nth)
  with a show ?thesis by (auto simp: rowTarget_def Let_def findIndex_None)
qed

lemma parseRows_skip:
  assumes "rowTarget (codesOf (initState h skel)) row = None"
  shows "parseRows h skel (before @ row # after) = parseRows h skel (before @ after)"
proof -
  have "foldl processRow (initState h skel) (before @ row # after) =
      foldl processRow (initState h skel) (before @ after)"
  proof (rule foldl_skip)
    fix st :: "('a, 'b, 'c) pstate"
    assume "codesOf st = codesOf (initState h skel)"
    with assms show "processRow st row = st" by (simp add: processRow_skip)
  qed simp
  then show ?thesis by (simp add: parseRows_def)
qed

lemma parse_document_skip:
  assumes "newline \<notin> set row" and "rowTarget (codesOf (initState h skel)) row = None"
  shows "parseBrandsCSV (Response okFlag (BodyText (pre @ newline # row @ newline # post))) h skel =
         parseBrandsCSV (Response okFlag (BodyText (pre @ newline # post))) h skel"
proof -
  have "parseRows h skel (rowsOf (pre @ newline # row @ newline # post)) =
      parseRows h skel (rowsOf (pre @ newline # post))"
    unfolding rowsOf_line(1) [OF assms(1), of pre post] rowsOf_line(2) [OF assms(1), of pre post]
    by (cases "trim row = []") (simp_all add: parseRows_skip [OF assms(2)])
  then show ?thesis by (simp add: parseBrandsCSV_def tryBlock_def)
qed

subsection \<open>Evaluation on the example data\<close>

lemma codesOf_init: "validSkeleton h skel \<Longrightarrow> codesOf (initState h skel) = skeletonCodes h skel"
  by (simp add: validSkeleton_def skeletonCodes_def codesOf_initState)

lemma demo_valid: "validSkeleton demoHeap [0, 1, 2]"
  by (simp add: validSkeleton_def demoHeap_def)

lemma demo_codes: "skeletonCodes demoHeap [0, 1, 2] = [js ''17.2'', js ''A-B'', js ''A'']"
  by (simp add: skeletonCodes_def demoHeap_def)

lemmas eval_cols = parse_cols_def split_row_Cons normalize_field_def trim_def
  isWhiteSpace_def startsWith_def endsWith_def comma_def dquote_def slice_1_m1_def

lemmas eval_parser = parseRows_def initState_def Let_def processRow_def
     getOrCreateBrand_def applyCategory_def nth_opt_def heap_of_def brandsOf_def allBrands_def
     hyphen_def updBrand_def truthy_def orEmpty_def collectionBrands_def newBrand_def

subsection \<open>One row and the Brand of its id\<close>

lemma pinv_reachable:
  assumes "validSkeleton h skel"
  shows "pinv (length (arrays h)) (length (brandObjs h)) (foldl processRow (initState h skel) rows)"
  using assms by (intro pinv_foldl pinv_initState) (simp add: validSkeleton_def)

lemma rowTarget_known:
  assumes "3 \<le> length (parse_cols row)" and "parse_cols row ! 0 \<in> set cs"
  shows "\<exists>i. rowTarget cs row = Some (i, parse_cols row ! 0 @ [hyphen] @ parse_cols row ! 1)"
proof -
  from assms(2) have "findIndex (\<lambda>c. c = parse_cols row ! 0) cs \<noteq> None"
    by (auto simp: findIndex_None)
  then obtain i where "findIndex (\<lambda>c. c = parse_cols row ! 0) cs = Some i" by auto
  with assms(1) show ?thesis by (simp add: rowTarget_def Let_def)
qed

lemma brandById_processRow:
  assumes "map_ok nb st" and "rowTarget (codesOf st) row = Some (i, k)"
  shows "brandById (processRow st row) k =
           Some (rowUpdate row (case brandById st k of
                   None \<Rightarrow> newBrand k (parse_cols row ! 1) (parse_cols row ! 2) | Some y \<Rightarrow> y))"
    and "k' \<noteq> k \<Longrightarrow> brandById (processRow st row) k' = brandById st k'"
proof -
  show "brandById (processRow st row) k =
           Some (rowUpdate row (case brandById st k of
                   None \<Rightarrow> newBrand k (parse_cols row ! 1) (parse_cols row ! 2) | Some y \<Rightarrow> y))"
  proof (cases "brandMap st k")
    case None
    then show ?thesis
      by (simp add: processRow_new [OF assms(2) None] brandById_def)
  next
    case (Some b)
    with assms(1) have "b < length (brandObjs st)" by (simp add: map_ok_def)
    with Some show ?thesis
      by (simp add: processRow_existing [OF assms(2) Some] brandById_def)
  qed
  assume ne: "k' \<noteq> k"
  show "brandById (processRow st row) k' = brandById st k'"
  proof (cases "brandMap st k")
    case None
    show ?thesis
    proof (cases "brandMap st k'")
      case None
      with \<open>brandMap st k = None\<close> ne show ?thesis
        by (simp add: processRow_new [OF assms(2) \<open>brandMap st k = None\<close>] brandById_def)
    next
      case (Some b')
      with assms(1) have "b' < length (brandObjs st)" by (simp add: map_ok_def)
      with Some ne show ?thesis
        by (simp add: processRow_new [OF assms(2) \<open>brandMap st k = None\<close>] brandById_def nth_append)
    qed
  next
    case (Some b)
    show ?thesis
    proof (cases "brandMap st k'")
      case None
      then show ?thesis
        by (simp add: processRow_existing [OF assms(2) Some] brandById_def)
    next
      case inner: (Some b')
      from assms(1) Some inner have "brand_id (brandObjs st ! b) = k" "brand_id (brandObjs st ! b') = k'"
        by (simp_all add: map_ok_def)
      with ne have "b' \<noteq> b" by auto
      with inner show ?thesis
        by (simp add: processRow_existing [OF assms(2) Some] brandById_def)
    qed
  qed
qed

lemma reachable_step:
  assumes "validSkeleton h skel" and "st = foldl processRow (initState h skel) before"
    and "3 \<le> length (parse_cols row)" and "parse_cols row ! 0 \<in> set (skeletonCodes h skel)"
    and "k = parse_cols row ! 0 @ [hyphen] @ parse_cols row ! 1"
    and "x = (case brandById st k of
                None \<Rightarrow> newBrand k (parse_cols row ! 1) (parse_cols row ! 2) | Some y \<Rightarrow> y)"
  shows "brandById (processRow st row) k = Some (rowUpdate row x)"
    and "k' \<noteq> k \<Longrightarrow> brandById (processRow st row) k' = brandById st k'"
proof -
  have c: "codesOf st = skeletonCodes h skel"
    using assms(1,2) by (simp add: codesOf_init)
  from rowTarget_known [OF assms(3,4)] obtain i
    where t: "rowTarget (codesOf st) row = Some (i, k)" unfolding c assms(5) by blast
  have m: "map_ok (length (brandObjs h)) st"
    using pinv_reachable [OF assms(1), of before] assms(2) by (simp add: pinv_def)
  show "brandById (processRow st row) k = Some (rowUpdate row x)"
    unfolding assms(6) by (rule brandById_processRow(1) [OF m t])
  show "k' \<noteq> k \<Longrightarrow> brandById (processRow st row) k' = brandById st k'"
    by (rule brandById_processRow(2) [OF m t])
qed

subsection \<open>The first row of an id creates its Brand\<close>

lemma step_keep:
  assumes "map_ok nb st" and "brandMap st k = Some b"
  shows "brandMap (processRow st row) k = Some b"
    and "name (brandObjs (processRow st row) ! b) = name (brandObjs st ! b)"
    and "booth (brandObjs (processRow st row) ! b) = booth (brandObjs st ! b)"
    and "b \<in> set (arrays st ! j) \<Longrightarrow> b \<in> set (arrays (processRow st row) ! j)"
proof -
  have b: "b < length (brandObjs st)" using assms by (simp add: map_ok_def)
  have "brandMap (processRow st row) k = Some b \<and>
    name (brandObjs (processRow st row) ! b) = name (brandObjs st ! b) \<and>
    booth (brandObjs (processRow st row) ! b) = booth (brandObjs st ! b) \<and>
    (b \<in> set (arrays st ! j) \<longrightarrow> b \<in> set (arrays (processRow st row) ! j))"
  proof (cases rule: row_cases [of st row])
    case skip
    with assms show ?thesis by (simp add: processRow_skip)
  next
    case (existing i k2 b2)
    with assms show ?thesis by (simp add: processRow_existing [OF existing])
  next
    case (new i k2)
    with assms have "k2 \<noteq> k" by auto
    with assms b show ?thesis
      by (cases "brands (hallObjs st ! (updatedHalls st ! i)) < length (arrays st)")
        (auto simp: processRow_new [OF new] nth_append nth_list_update list_update_beyond)
  qed
  then show "brandMap (processRow st row) k = Some b"
    and "name (brandObjs (processRow st row) ! b) = name (brandObjs st ! b)"
    and "booth (brandObjs (processRow st row) ! b) = booth (brandObjs st ! b)"
    and "b \<in> set (arrays st ! j) \<Longrightarrow> b \<in> set (arrays (processRow st row) ! j)"
    by simp_all
qed

lemma fold_keep:
  assumes "map_ok nb st" and "brandMap st k = Some b"
  shows "brandMap (foldl processRow st rows) k = Some b \<and>
    name (brandObjs (foldl processRow st rows) ! b) = name (brandObjs st ! b) \<and>
    booth (brandObjs (foldl processRow st rows) ! b) = booth (brandObjs st ! b) \<and>
    (b \<in> set (arrays st ! j) \<longrightarrow> b \<in> set (arrays (foldl processRow st rows) ! j))"
  using assms
proof (induction rows arbitrary: st)
  case Nil
  then show ?case by simp
next
  case (Cons r rows)
  have m: "map_ok nb (processRow st r)" using Cons.prems(1) by (rule map_ok_processRow)
  have s: "brandMap (processRow st r) k = Some b"
    using Cons.prems by (rule step_keep(1))
  from Cons.IH [OF m s] step_keep(2) [OF Cons.prems, where row = r]
    step_keep(3) [OF Cons.prems, where row = r]
    step_keep(4) [OF Cons.prems, where row = r and j = j]
  show ?case by simp
qed

lemma step_none:
  assumes "brandMap st k = None" and "map_option snd (rowTarget (codesOf st) row) \<noteq> Some k"
  shows "brandMap (processRow st row) k = None"
proof (cases rule: row_cases [of st row])
  case skip
  with assms show ?thesis by (simp add: processRow_skip)
next
  case (existing i k2 b2)
  with assms show ?thesis by (simp add: processRow_existing [OF existing])
next
  case (new i k2)
  with assms have "k2 \<noteq> k" by auto
  with assms show ?thesis by (simp add: processRow_new [OF new])
qed

lemma step_create:
  assumes "halls_ok na st" and "brandMap st k = None" and "rowTarget (codesOf st) row = Some (i, k)"
  shows "brandMap (processRow st row) k = Some (length (brandObjs st))"
    and "name (brandObjs (processRow st row) ! length (brandObjs st)) = parse_cols row ! 2"
    and "booth (brandObjs (processRow st row) ! length (brandObjs st)) = parse_cols row ! 1"
    and "length (brandObjs st) \<in> set (arrays (processRow st row) ! (na + i))"
proof -
  have i: "i < length (updatedHalls st)" using assms(3) by (rule rowTarget_index)
  with assms(1) have arr: "brands (hallObjs st ! (updatedHalls st ! i)) = na + i"
    and len: "na + i < length (arrays st)"
    by (simp_all add: halls_ok_def)
  note eq = processRow_new [OF assms(3,2)]
  show "brandMap (processRow st row) k = Some (length (brandObjs st))" by (simp add: eq)
  show "name (brandObjs (processRow st row) ! length (brandObjs st)) = parse_cols row ! 2"
    by (simp add: eq newBrand_def)
  show "booth (brandObjs (processRow st row) ! length (brandObjs st)) = parse_cols row ! 1"
    by (simp add: eq newBrand_def)
  show "length (brandObjs st) \<in> set (arrays (processRow st row) ! (na + i))"
    using len by (simp add: eq arr)
qed

lemma fold_first:
  assumes "pinv na nb st" and "brandMap st k = None"
  shows "case find (\<lambda>r. map_option snd (rowTarget (codesOf st) r) = Some k) rows of
           None \<Rightarrow> brandMap (foldl processRow st rows) k = None
         | Some r \<Rightarrow> (\<exists>i b. rowTarget (codesOf st) r = Some (i, k) \<and>
               brandMap (foldl processRow st rows) k = Some b \<and>
               name (brandObjs (foldl processRow st rows) ! b) = parse_cols r ! 2 \<and>
               booth (brandObjs (foldl processRow st rows) ! b) = parse_cols r ! 1 \<and>
               b \<in> set (arrays (foldl processRow st rows) ! (na + i)))"
  using assms
proof (induction rows arbitrary: st)
  case Nil
  then show ?case by simp
next
  case (Cons r rows)
  have p: "pinv na nb (processRow st r)" using Cons.prems(1) by (rule pinv_processRow)
  show ?case
  proof (cases "map_option snd (rowTarget (codesOf st) r) = Some k")
    case True
    then obtain i where t: "rowTarget (codesOf st) r = Some (i, k)" by auto
    from Cons.prems(1) have h: "halls_ok na st" by (simp add: pinv_def)
    note c = step_create [OF h Cons.prems(2) t]
    from p have m: "map_ok nb (processRow st r)" by (simp add: pinv_def)
    from fold_keep [OF m c(1), of rows "na + i"] c(2,3,4) t True
    show ?thesis by simp
  next
    case False
    have n: "brandMap (processRow st r) k = None"
      using Cons.prems(2) False by (rule step_none)
    from Cons.IH [OF p n, unfolded codesOf_processRow] False show ?thesis
      by (simp split: option.splits)
  qed
qed

subsection \<open>The collection that a reader sees\<close>

lemma heap_of_simps [simp]:
  "hallObjs (heap_of st) = hallObjs st" "arrays (heap_of st) = arrays st"
  "brandObjs (heap_of st) = brandObjs st"
  by (simp_all add: heap_of_def)

lemma brandsOf_heap_of [simp]: "brandsOf (heap_of st) = brandsOf st"
  by (rule ext) (simp add: brandsOf_def)

lemma allBrands_heap_of [simp]: "allBrands (heap_of st) hs = allBrands st hs"
  by (simp add: allBrands_def)

lemma brandsOf_working:
  assumes "halls_ok na st" and "i < length (updatedHalls st)"
  shows "brandsOf st (updatedHalls st ! i) = map (\<lambda>b. brandObjs st ! b) (arrays st ! (na + i))"
  using assms by (simp add: brandsOf_def halls_ok_def)

lemma allBrands_working:
  assumes "halls_ok na st"
  shows "allBrands st (updatedHalls st) = map (\<lambda>b. brandObjs st ! b) (concat (drop na (arrays st)))"
proof -
  have eq: "map (\<lambda>a. arrays st ! brands (hallObjs st ! a)) (updatedHalls st) = drop na (arrays st)"
    using assms by (intro nth_equalityI) (simp_all add: halls_ok_def)
  have "allBrands st (updatedHalls st) =
      concat (map (map (\<lambda>b. brandObjs st ! b))
        (map (\<lambda>a. arrays st ! brands (hallObjs st ! a)) (updatedHalls st)))"
    by (simp add: allBrands_def brandsOf_def [abs_def] comp_def)
  also have "\<dots> = concat (map (map (\<lambda>b. brandObjs st ! b)) (drop na (arrays st)))"
    by (simp only: eq)
  also have "\<dots> = map (\<lambda>b. brandObjs st ! b) (concat (drop na (arrays st)))"
    by (simp only: map_concat)
  finally show ?thesis .
qed

lemma distinct_ids:
  assumes "pinv na nb st"
  shows "distinct (map brand_id (allBrands st (updatedHalls st)))"
proof -
  from assms have h: "halls_ok na st" and m: "map_ok nb st" and a: "arrays_ok na nb st"
    by (simp_all add: pinv_def)
  let ?news = "concat (drop na (arrays st))"
  have "inj_on (\<lambda>b. brand_id (brandObjs st ! b)) (set ?news)"
  proof (rule inj_onI)
    fix b c assume bs: "b \<in> set ?news" and cs: "c \<in> set ?news"
      and e: "brand_id (brandObjs st ! b) = brand_id (brandObjs st ! c)"
    have s: "set ?news = {nb..<length (brandObjs st)}" using a by (simp only: arrays_ok_def)
    from bs have rb: "nb \<le> b \<and> b < length (brandObjs st)" unfolding s by simp
    from cs have rc: "nb \<le> c \<and> c < length (brandObjs st)" unfolding s by simp
    from m rb have "brandMap st (brand_id (brandObjs st ! b)) = Some b"
      unfolding map_ok_def by blast
    moreover from m rc have "brandMap st (brand_id (brandObjs st ! c)) = Some c"
      unfolding map_ok_def by blast
    ultimately show "b = c" unfolding e by simp
  qed
  moreover have "distinct ?news" using a by (simp only: arrays_ok_def)
  ultimately have "distinct (map (\<lambda>b. brand_id (brandObjs st ! b)) ?news)"
    by (simp only: distinct_map simp_thms)
  then show ?thesis by (simp only: allBrands_working [OF h] map_map comp_def)
qed

lemma ids_in_map:
  assumes "pinv na nb st" and "k \<in> set (map brand_id (allBrands st (updatedHalls st)))"
  shows "brandMap st k \<noteq> None"
proof -
  from assms have h: "halls_ok na st" and m: "map_ok nb st" and a: "arrays_ok na nb st"
    by (simp_all add: pinv_def)
  have s: "set (concat (drop na (arrays st))) = {nb..<length (brandObjs st)}"
    using a by (simp only: arrays_ok_def)
  from assms(2) have "k \<in> (\<lambda>b. brand_id (brandObjs st ! b)) ` set (concat (drop na (arrays st)))"
    unfolding allBrands_working [OF h] by (simp only: map_map comp_def set_map)
  then obtain b where b: "b \<in> set (concat (drop na (arrays st)))"
    and k: "k = brand_id (brandObjs st ! b)" by blast
  from b have "nb \<le> b \<and> b < length (brandObjs st)" unfolding s by simp
  with m have "brandMap st (brand_id (brandObjs st ! b)) = Some b"
    unfolding map_ok_def by blast
  with k show ?thesis by simp
qed

subsection \<open>Objects that existed before the call\<close>

lemma frame_processRow:
  assumes "pinv na nb st"
  shows "take na (arrays (processRow st row)) = take na (arrays st)"
    and "take nb (brandObjs (processRow st row)) = take nb (brandObjs st)"
proof -
  from assms have h: "halls_ok na st" and m: "map_ok nb st" by (simp_all add: pinv_def)
  have "take na (arrays (processRow st row)) = take na (arrays st) \<and>
    take nb (brandObjs (processRow st row)) = take nb (brandObjs st)"
  proof (cases rule: row_cases [of st row])
    case skip
    then show ?thesis by (simp add: processRow_skip)
  next
    case (existing i k b)
    with m have "nb \<le> b" by (simp add: map_ok_def)
    then show ?thesis by (simp add: processRow_existing [OF existing])
  next
    case (new i k)
    have i: "i < length (updatedHalls st)" using new(1) by (rule rowTarget_index)
    with h have arr: "brands (hallObjs st ! (updatedHalls st ! i)) = na + i"
      by (simp add: halls_ok_def)
    from m have "nb \<le> length (brandObjs st)" by (simp add: map_ok_def)
    then show ?thesis by (simp add: processRow_new [OF new] arr)
  qed
  then show "take na (arrays (processRow st row)) = take na (arrays st)"
    and "take nb (brandObjs (processRow st row)) = take nb (brandObjs st)" by simp_all
qed

lemma frame_foldl:
  assumes "pinv na nb st"
  shows "take na (arrays (foldl processRow st rows)) = take na (arrays st) \<and>
    take nb (brandObjs (foldl processRow st rows)) = take nb (brandObjs st)"
  using assms
proof (induction rows arbitrary: st)
  case Nil
  then show ?case by simp
next
  case (Cons r rows)
  have p: "pinv na nb (processRow st r)" using Cons.prems by (rule pinv_processRow)
  from Cons.IH [OF p] frame_processRow [OF Cons.prems, of r] show ?case by simp
qed

lemma parseRows_unchanged:
  assumes "validSkeleton h skel" and "parseRows h skel rows = (h', halls)"
  shows "unchangedFrom h h'"
proof -
  let ?ini = "initState h skel"
  let ?st = "foldl processRow ?ini rows"
  have v: "\<forall>a\<in>set skel. a < length (hallObjs h)" using assms(1) by (simp add: validSkeleton_def)
  have h': "h' = heap_of ?st" using assms(2) by (simp add: parseRows_def Let_def)
  have p0: "pinv (length (arrays h)) (length (brandObjs h)) ?ini"
    using pinv_reachable [OF assms(1), where rows = "[]"] by simp
  from frame_foldl [OF p0, of rows]
  have "take (length (arrays h)) (arrays ?st) = arrays h"
    and "take (length (brandObjs h)) (brandObjs ?st) = brandObjs h"
    by (simp_all add: initState_eq [OF v])
  moreover have "take (length (hallObjs h)) (hallObjs ?st) = hallObjs h"
    by (simp add: initState_eq [OF v])
  ultimately show ?thesis by (simp add: unchangedFrom_def h')
qed

lemma parse_result:
  assumes "validSkeleton h skel" and "parseRows h skel rows = (h', halls)"
  shows "length halls = length skel \<and>
     (\<forall>i<length skel.
        hall_id (hallObjs h' ! (halls ! i)) = hall_id (hallObjs h ! (skel ! i)) \<and>
        code (hallObjs h' ! (halls ! i)) = code (hallObjs h ! (skel ! i)) \<and>
        floor (hallObjs h' ! (halls ! i)) = floor (hallObjs h ! (skel ! i)) \<and>
        type (hallObjs h' ! (halls ! i)) = type (hallObjs h ! (skel ! i)) \<and>
        hall.more (hallObjs h' ! (halls ! i)) = hall.more (hallObjs h ! (skel ! i)) \<and>
        length (hallObjs h) \<le> halls ! i \<and>
        length (arrays h) \<le> brands (hallObjs h' ! (halls ! i)) \<and>
        (\<forall>b\<in>set (arrays h' ! brands (hallObjs h' ! (halls ! i))). length (brandObjs h) \<le> b)) \<and>
     collectionBrands (parseRows h skel []) = replicate (length skel) [] \<and>
     unchangedFrom h h'"
proof -
  let ?ini = "initState h skel"
  let ?st = "foldl processRow ?ini rows"
  let ?na = "length (arrays h)"
  let ?nb = "length (brandObjs h)"
  have v: "\<forall>a\<in>set skel. a < length (hallObjs h)" using assms(1) by (simp add: validSkeleton_def)
  have h': "h' = heap_of ?st" and halls: "halls = updatedHalls ?st"
    using assms(2) by (simp_all add: parseRows_def Let_def)
  have p: "pinv ?na ?nb ?st" by (rule pinv_reachable [OF assms(1)])
  then have hok: "halls_ok ?na ?st" and aok: "arrays_ok ?na ?nb ?st" by (simp_all add: pinv_def)
  have hs: "halls = [length (hallObjs h)..<length (hallObjs h) + length skel]"
    unfolding halls by (simp add: initState_eq [OF v])
  have ho: "hallObjs h' = hallObjs h @ newHalls h skel"
    unfolding h' by (simp add: initState_eq [OF v])
  have len: "length halls = length skel" by (simp add: hs)
  have each: "hall_id (hallObjs h' ! (halls ! i)) = hall_id (hallObjs h ! (skel ! i)) \<and>
        code (hallObjs h' ! (halls ! i)) = code (hallObjs h ! (skel ! i)) \<and>
        floor (hallObjs h' ! (halls ! i)) = floor (hallObjs h ! (skel ! i)) \<and>
        type (hallObjs h' ! (halls ! i)) = type (hallObjs h ! (skel ! i)) \<and>
        hall.more (hallObjs h' ! (halls ! i)) = hall.more (hallObjs h ! (skel ! i)) \<and>
        length (hallObjs h) \<le> halls ! i \<and>
        length (arrays h) \<le> brands (hallObjs h' ! (halls ! i)) \<and>
        (\<forall>b\<in>set (arrays h' ! brands (hallObjs h' ! (halls ! i))). length (brandObjs h) \<le> b)"
    if i: "i < length skel" for i
  proof -
    have hi: "halls ! i = length (hallObjs h) + i" using i by (simp add: hs)
    have obj: "hallObjs h' ! (halls ! i) = (hallObjs h ! (skel ! i))\<lparr>brands := ?na + i\<rparr>"
      using i by (simp add: hi ho nth_newHalls)
    have iu: "i < length (updatedHalls ?st)" using i len halls by simp
    have sub: "set (arrays ?st ! (?na + i)) \<subseteq> set (concat (drop ?na (arrays ?st)))"
    proof -
      have "i < length (drop ?na (arrays ?st))" using hok iu by (simp add: halls_ok_def)
      then have "drop ?na (arrays ?st) ! i \<in> set (drop ?na (arrays ?st))" by (rule nth_mem)
      moreover have "drop ?na (arrays ?st) ! i = arrays ?st ! (?na + i)"
        using hok iu by (simp add: halls_ok_def)
      ultimately show ?thesis by (auto simp del: set_concat simp: set_concat)
    qed
    have "\<forall>b\<in>set (arrays ?st ! (?na + i)). ?nb \<le> b"
    proof
      fix b assume "b \<in> set (arrays ?st ! (?na + i))"
      with sub have "b \<in> set (concat (drop ?na (arrays ?st)))" by blast
      moreover have "set (concat (drop ?na (arrays ?st))) = {?nb..<length (brandObjs ?st)}"
        using aok by (simp only: arrays_ok_def)
      ultimately have "b \<in> {?nb..<length (brandObjs ?st)}" by (simp only:)
      then show "?nb \<le> b" by simp
    qed
    then have "\<forall>b\<in>set (arrays h' ! brands (hallObjs h' ! (halls ! i))). ?nb \<le> b"
      unfolding obj by (simp add: h')
    moreover have "hall_id (hallObjs h' ! (halls ! i)) = hall_id (hallObjs h ! (skel ! i)) \<and>
        code (hallObjs h' ! (halls ! i)) = code (hallObjs h ! (skel ! i)) \<and>
        floor (hallObjs h' ! (halls ! i)) = floor (hallObjs h ! (skel ! i)) \<and>
        type (hallObjs h' ! (halls ! i)) = type (hallObjs h ! (skel ! i)) \<and>
        hall.more (hallObjs h' ! (halls ! i)) = hall.more (hallObjs h ! (skel ! i)) \<and>
        length (arrays h) \<le> brands (hallObjs h' ! (halls ! i))"
      unfolding obj by simp
    moreover have "length (hallObjs h) \<le> halls ! i" unfolding hi by simp
    ultimately show ?thesis by blast
  qed
  have empty: "collectionBrands (parseRows h skel []) = replicate (length skel) []"
    by (rule nth_equalityI)
      (simp_all add: collectionBrands_def parseRows_def initState_eq [OF v] brandsOf_def
        nth_append nth_newHalls)
  from len each empty parseRows_unchanged [OF assms] show ?thesis by blast
qed

lemma demo_doc:
  "rowsOf (js ''Hall,Booth,Brand'' @ newline # js ''17.2,A01,BYD'') = [js ''17.2,A01,BYD'']"
  by (simp add: rowsOf_def newline_def trim_def isWhiteSpace_def)

subsection \<open>The heap at an exception\<close>

text \<open>The list of heaps of a run ends in the heap of its result, and no heap of the list
  has changed an object that existed before the call.\<close>

lemma unchangedFrom_refl: "unchangedFrom h h"
  by (simp add: unchangedFrom_def)

lemma take_take_eq:
  assumes "take (length a) b = a" and "take (length b) c = b"
  shows "take (length a) c = a"
proof -
  have "length a \<le> length b"
    using arg_cong [OF assms(1), of length] by simp
  then have "take (length a) c = take (length a) (take (length b) c)"
    by (simp add: min_def)
  with assms show ?thesis by simp
qed

lemma unchangedFrom_trans:
  "unchangedFrom a b \<Longrightarrow> unchangedFrom b c \<Longrightarrow> unchangedFrom a c"
  unfolding unchangedFrom_def by (blast intro: take_take_eq)

lemma cloneHallsTrace_last: "last (h # cloneHallsTrace h skel) = fst (cloneHalls h skel)"
  by (induction skel arbitrary: h) (simp_all add: Let_def split: prod.splits)

lemma cloneHallsTrace_unchanged:
  "h' \<in> set (cloneHallsTrace h skel) \<Longrightarrow> unchangedFrom h h'"
proof (induction skel arbitrary: h)
  case Nil
  then show ?case by simp
next
  case (Cons a rest)
  let ?h1 = "h\<lparr>arrays := arrays h @ [[]]\<rparr>"
  let ?h2 = "?h1\<lparr>hallObjs := hallObjs ?h1 @ [(hallObjs ?h1 ! a)\<lparr>brands := length (arrays h)\<rparr>]\<rparr>"
  have u1: "unchangedFrom h ?h1" and u2: "unchangedFrom h ?h2"
    by (simp_all add: unchangedFrom_def)
  from Cons.prems consider "h' = ?h1" | "h' = ?h2" | "h' \<in> set (cloneHallsTrace ?h2 rest)"
    by (auto simp: Let_def)
  then show ?case
  proof cases
    case 1
    with u1 show ?thesis by simp
  next
    case 2
    with u2 show ?thesis by simp
  next
    case 3
    then have "unchangedFrom ?h2 h'" by (rule Cons.IH)
    with u2 show ?thesis by (rule unchangedFrom_trans)
  qed
qed

lemma processRowTrace_skip:
  "rowTarget (codesOf st) row = None \<Longrightarrow> processRowTrace st row = []"
  by (auto simp: rowTarget_def codesOf_def processRowTrace_def Let_def findIndex_map split: if_splits)

lemma processRowTrace_existing:
  assumes "rowTarget (codesOf st) row = Some (i, k)" and "brandMap st k = Some b"
  shows "processRowTrace st row = [processRow st row]"
  using assms
  by (auto simp: rowTarget_def codesOf_def processRowTrace_def processRow_def Let_def findIndex_map
      getOrCreateBrand_def getOrCreateBrandTrace_def split: if_splits)

lemma processRowTrace_new:
  assumes "rowTarget (codesOf st) row = Some (i, k)" and "brandMap st k = None"
  shows "processRowTrace st row =
     [st\<lparr>brandObjs := brandObjs st @ [newBrand k (parse_cols row ! 1) (parse_cols row ! 2)]\<rparr>,
      st\<lparr>brandObjs := brandObjs st @ [newBrand k (parse_cols row ! 1) (parse_cols row ! 2)],
         brandMap := (brandMap st)(k \<mapsto> length (brandObjs st))\<rparr>,
      st\<lparr>brandObjs := brandObjs st @ [newBrand k (parse_cols row ! 1) (parse_cols row ! 2)],
         brandMap := (brandMap st)(k \<mapsto> length (brandObjs st)),
         arrays := (arrays st)[brands (hallObjs st ! (updatedHalls st ! i)) :=
           arrays st ! brands (hallObjs st ! (updatedHalls st ! i)) @ [length (brandObjs st)]]\<rparr>,
      processRow st row]"
  using assms
  by (auto simp: rowTarget_def codesOf_def processRowTrace_def processRow_def Let_def findIndex_map
      getOrCreateBrand_def getOrCreateBrandTrace_def split: if_splits)

lemma processRowTrace_last: "last (st # processRowTrace st row) = processRow st row"
  by (simp add: processRowTrace_def processRow_def Let_def split: option.splits prod.splits)

lemma rowsTrace_last: "last (st # rowsTrace st rows) = foldl processRow st rows"
proof (induction rows arbitrary: st)
  case Nil
  then show ?case by simp
next
  case (Cons row rows)
  have "last (st # rowsTrace st (row # rows)) =
      last ((st # processRowTrace st row) @ rowsTrace (processRow st row) rows)" by simp
  also have "\<dots> = last (last (st # processRowTrace st row) # rowsTrace (processRow st row) rows)"
    by (simp only: last_append last.simps split: if_splits)
  also have "\<dots> = foldl processRow st (row # rows)"
    by (simp only: processRowTrace_last Cons.IH foldl.simps)
  finally show ?case .
qed

lemma parseTrace_last: "last (parseTrace h skel rows) = fst (parseRows h skel rows)"
proof -
  let ?ini = "initState h skel"
  have ini: "heap_of ?ini = fst (cloneHalls h skel)"
    by (simp add: initState_def heap_of_def split: prod.splits)
  have "last (parseTrace h skel rows) =
      last (last (h # cloneHallsTrace h skel) # map heap_of (rowsTrace ?ini rows))"
    by (simp add: parseTrace_def)
  also have "\<dots> = last (map heap_of (?ini # rowsTrace ?ini rows))"
    by (simp only: cloneHallsTrace_last ini list.map)
  also have "\<dots> = heap_of (last (?ini # rowsTrace ?ini rows))"
    by (simp only: last_map list.distinct not_False_eq_True)
  also have "\<dots> = heap_of (foldl processRow ?ini rows)"
    by (simp only: rowsTrace_last)
  finally show ?thesis by (simp add: parseRows_def Let_def)
qed

lemma processRowTrace_frame:
  assumes "pinv na nb st" and "s \<in> set (processRowTrace st row)"
  shows "hallObjs s = hallObjs st \<and> take na (arrays s) = take na (arrays st) \<and>
    take nb (brandObjs s) = take nb (brandObjs st)"
proof -
  from assms(1) have h: "halls_ok na st" and m: "map_ok nb st" by (simp_all add: pinv_def)
  note f = frame_processRow [OF assms(1), of row]
  show ?thesis
  proof (cases rule: row_cases [of st row])
    case skip
    with assms(2) show ?thesis by (simp add: processRowTrace_skip)
  next
    case (existing i k b)
    with assms(2) f show ?thesis by (simp add: processRowTrace_existing [OF existing])
  next
    case (new i k)
    have i: "i < length (updatedHalls st)" using new(1) by (rule rowTarget_index)
    with h have arr: "brands (hallObjs st ! (updatedHalls st ! i)) = na + i"
      by (simp add: halls_ok_def)
    from m have nb: "nb \<le> length (brandObjs st)" by (simp add: map_ok_def)
    from assms(2) f nb show ?thesis
      unfolding processRowTrace_new [OF new] arr by auto
  qed
qed

lemma rowsTrace_frame:
  assumes "pinv na nb st" and "s \<in> set (rowsTrace st rows)"
  shows "hallObjs s = hallObjs st \<and> take na (arrays s) = take na (arrays st) \<and>
    take nb (brandObjs s) = take nb (brandObjs st)"
  using assms
proof (induction rows arbitrary: st)
  case Nil
  then show ?case by simp
next
  case (Cons r rows)
  from Cons.prems(2) consider "s \<in> set (processRowTrace st r)"
    | "s \<in> set (rowsTrace (processRow st r) rows)" by auto
  then show ?case
  proof cases
    case 1
    with Cons.prems(1) show ?thesis by (rule processRowTrace_frame)
  next
    case 2
    have p: "pinv na nb (processRow st r)" using Cons.prems(1) by (rule pinv_processRow)
    from Cons.IH [OF p 2] frame_processRow [OF Cons.prems(1), of r] show ?thesis by simp
  qed
qed

lemma parseTrace_unchanged:
  assumes "validSkeleton h skel" and "h' \<in> set (parseTrace h skel rows)"
  shows "unchangedFrom h h'"
proof -
  let ?ini = "initState h skel"
  have v: "\<forall>a\<in>set skel. a < length (hallObjs h)" using assms(1) by (simp add: validSkeleton_def)
  have p0: "pinv (length (arrays h)) (length (brandObjs h)) ?ini" using v by (rule pinv_initState)
  from assms(2) consider "h' = h" | "h' \<in> set (cloneHallsTrace h skel)"
    | s where "s \<in> set (rowsTrace ?ini rows)" and "h' = heap_of s"
    by (auto simp: parseTrace_def)
  then show ?thesis
  proof cases
    case 1
    then show ?thesis by (simp add: unchangedFrom_refl)
  next
    case 2
    then show ?thesis by (rule cloneHallsTrace_unchanged)
  next
    case 3
    from rowsTrace_frame [OF p0 3(1)] show ?thesis
      by (simp add: unchangedFrom_def 3(2) initState_eq [OF v])
  qed
qed

lemma heapAtThrow_in_trace: "heapAtThrow h skel rows n \<in> set (parseTrace h skel rows)"
proof -
  have "parseTrace h skel rows \<noteq> []" by (simp add: parseTrace_def)
  then have "min n (length (parseTrace h skel rows) - 1) < length (parseTrace h skel rows)"
    by (cases "parseTrace h skel rows") simp_all
  then show ?thesis by (simp add: heapAtThrow_def Let_def)
qed

lemmas eval_trace = heapAtThrow_def parseTrace_def processRowTrace_def getOrCreateBrandTrace_def

subsection \<open>Sorting\<close>

lemma count_insort_cmp: "count_list (insort_cmp cmp x ys) z = count_list (x # ys) z"
  by (induction ys) auto

lemma count_array_sort: "count_list (array_sort cmp xs) z = count_list xs z"
  by (induction xs) (simp_all add: array_sort_def count_insort_cmp)

lemma set_insort_cmp: "set (insort_cmp cmp x ys) = insert x (set ys)"
  by (induction ys) auto

lemma length_array_sort [simp]: "length (array_sort cmp xs) = length xs"
proof -
  have "length (insort_cmp cmp x ys) = Suc (length ys)" for x ys
    by (induction ys) auto
  then show ?thesis by (induction xs) (simp_all add: array_sort_def)
qed

lemma sorted_insort_cmp:
  assumes "consistentComparator cmp" and "sorted_wrt (\<lambda>a b. cmp a b \<le> 0) ys"
  shows "sorted_wrt (\<lambda>a b. cmp a b \<le> 0) (insort_cmp cmp x ys)"
  using assms(2)
proof (induction ys)
  case Nil
  then show ?case by simp
next
  case (Cons y ys)
  from assms(1) have total: "cmp a b \<le> 0 \<or> cmp b a \<le> 0" for a b
    unfolding consistentComparator_def by blast
  from assms(1) have trans: "cmp a b \<le> 0 \<Longrightarrow> cmp b c \<le> 0 \<Longrightarrow> cmp a c \<le> 0" for a b c
    unfolding consistentComparator_def by blast
  show ?case
  proof (cases "cmp x y \<le> 0")
    case True
    with Cons.prems trans show ?thesis by auto
  next
    case False
    with total [of x y] have "cmp y x \<le> 0" by simp
    with False Cons show ?thesis by (auto simp: set_insort_cmp)
  qed
qed

lemma sorted_array_sort:
  assumes "consistentComparator cmp"
  shows "sorted_wrt (\<lambda>a b. cmp a b \<le> 0) (array_sort cmp xs)"
  by (induction xs) (simp_all add: array_sort_def sorted_insort_cmp [OF assms])

lemma array_sort_map:
  "map f (array_sort (\<lambda>a b. cmp (f a) (f b)) xs) = array_sort cmp (map f xs)"
proof -
  have "map f (insort_cmp (\<lambda>a b. cmp (f a) (f b)) x ys) = insort_cmp cmp (f x) (map f ys)" for x ys
    by (induction ys) auto
  then show ?thesis by (induction xs) (simp_all add: array_sort_def)
qed

lemma lexCompare_total: "lexCompare a b \<le> 0 \<or> lexCompare b a \<le> 0"
  by (induction a b rule: lexCompare.induct) auto

lemma lexCompare_trans:
  "lexCompare a b \<le> 0 \<Longrightarrow> lexCompare b c \<le> 0 \<Longrightarrow> lexCompare a c \<le> 0"
proof (induction a b arbitrary: c rule: lexCompare.induct)
  case 1
  then show ?case by simp
next
  case (2 y ys)
  then show ?case by (cases c) auto
next
  case (3 x xs)
  then show ?case by simp
next
  case (4 x xs y ys)
  show ?case
  proof (cases c)
    case Nil
    with "4.prems" show ?thesis by simp
  next
    case (Cons z zs)
    show ?thesis
    proof (cases "x < y")
      case True
      with "4.prems" Cons show ?thesis by (auto split: if_splits)
    next
      case False
      with "4.prems"(1) have xy: "x = y" and r: "lexCompare xs ys \<le> 0"
        by (auto split: if_splits)
      show ?thesis
      proof (cases "y < z")
        case True
        with xy Cons show ?thesis by simp
      next
        case nlt: False
        with "4.prems"(2) Cons have yz: "y = z" and r2: "lexCompare ys zs \<le> 0"
          by (auto split: if_splits)
        from "4.IH" [OF False _ r r2] xy have "lexCompare xs zs \<le> 0" by simp
        with xy yz Cons show ?thesis by simp
      qed
    qed
  qed
qed

lemma lexCompare_consistent: "consistentComparator lexCompare"
  unfolding consistentComparator_def using lexCompare_total lexCompare_trans by blast

lemma brandById_in_collection:
  assumes "pinv na nb st" and "brandById st k = Some x"
  shows "the (brandById st k) \<in> set (allBrands st (updatedHalls st))"
proof -
  from assms(1) have h: "halls_ok na st" and m: "map_ok nb st" and a: "arrays_ok na nb st"
    by (simp_all add: pinv_def)
  from assms(2) obtain b where b: "brandMap st k = Some b" and x: "x = brandObjs st ! b"
    by (auto simp: brandById_def)
  from m b have "nb \<le> b \<and> b < length (brandObjs st)" unfolding map_ok_def by blast
  then have "b \<in> {nb..<length (brandObjs st)}" by simp
  moreover have "set (concat (drop na (arrays st))) = {nb..<length (brandObjs st)}"
    using a by (simp only: arrays_ok_def)
  ultimately have "b \<in> set (concat (drop na (arrays st)))" by (simp only:)
  then have "brandObjs st ! b \<in> (\<lambda>b. brandObjs st ! b) ` set (concat (drop na (arrays st)))"
    by (rule imageI)
  then have "x \<in> set (allBrands st (updatedHalls st))"
    unfolding allBrands_working [OF h] x by (simp only: set_map)
  with assms(2) show ?thesis by simp
qed

lemma ids_of_parse:
  assumes "validSkeleton h skel" and "parseRows h skel rows = (h', halls)"
    and "codes = skeletonCodes h skel"
  shows "distinct (map brand_id (allBrands h' halls)) \<and>
     (\<forall>k. case find (\<lambda>r. map_option snd (rowTarget codes r) = Some k) rows of
            None \<Rightarrow> k \<notin> set (map brand_id (allBrands h' halls))
          | Some r \<Rightarrow> (\<exists>i x. rowTarget codes r = Some (i, k) \<and>
                x \<in> set (brandsOf h' (halls ! i)) \<and> brand_id x = k \<and>
                name x = parse_cols r ! 2 \<and> booth x = parse_cols r ! 1))"
proof -
  let ?ini = "initState h skel"
  let ?st = "foldl processRow ?ini rows"
  let ?na = "length (arrays h)"
  let ?nb = "length (brandObjs h)"
  have h': "h' = heap_of ?st" and halls: "halls = updatedHalls ?st"
    using assms(2) by (simp_all add: parseRows_def Let_def)
  have p0: "pinv ?na ?nb ?ini"
    using pinv_reachable [OF assms(1), where rows = "[]"] by simp
  have p: "pinv ?na ?nb ?st" by (rule pinv_reachable [OF assms(1)])
  then have hok: "halls_ok ?na ?st" and mok: "map_ok ?nb ?st" by (simp_all add: pinv_def)
  have c0: "codesOf ?ini = codes" using assms(1,3) by (simp add: codesOf_init)
  have e0: "brandMap ?ini k = None" for k by (simp add: initState_def split: prod.splits)
  have d: "distinct (map brand_id (allBrands h' halls))"
    unfolding h' halls using distinct_ids [OF p] by simp
  have each: "case find (\<lambda>r. map_option snd (rowTarget codes r) = Some k) rows of
            None \<Rightarrow> k \<notin> set (map brand_id (allBrands h' halls))
          | Some r \<Rightarrow> (\<exists>i x. rowTarget codes r = Some (i, k) \<and>
                x \<in> set (brandsOf h' (halls ! i)) \<and> brand_id x = k \<and>
                name x = parse_cols r ! 2 \<and> booth x = parse_cols r ! 1)" for k
  proof (cases "find (\<lambda>r. map_option snd (rowTarget codes r) = Some k) rows")
    case None
    with fold_first [OF p0 e0 [of k], where rows = rows] have "brandMap ?st k = None"
      unfolding c0 by simp
    with ids_in_map [OF p, where k = k] have "k \<notin> set (map brand_id (allBrands ?st (updatedHalls ?st)))"
      by blast
    with None show ?thesis unfolding h' halls by simp
  next
    case (Some r)
    with fold_first [OF p0 e0 [of k], where rows = rows] obtain i b where
      t: "rowTarget codes r = Some (i, k)" and b: "brandMap ?st k = Some b"
      and n: "name (brandObjs ?st ! b) = parse_cols r ! 2"
      and bo: "booth (brandObjs ?st ! b) = parse_cols r ! 1"
      and mem: "b \<in> set (arrays ?st ! (?na + i))"
      unfolding c0 by auto
    have i: "i < length (updatedHalls ?st)"
      using t c0 rowTarget_index [where st = ?ini and row = r and i = i and k = k] by simp
    have idk: "brand_id (brandObjs ?st ! b) = k" using mok b by (simp add: map_ok_def)
    have "brandObjs ?st ! b \<in> set (brandsOf ?st (updatedHalls ?st ! i))"
      unfolding brandsOf_working [OF hok i] using mem by simp
    with t n bo idk Some show ?thesis unfolding h' halls by auto
  qed
  from d each show ?thesis by blast
qed

lemma composite_id_inj:
  assumes "h \<notin> set a" and "h \<notin> set a'" and "a @ [h] @ b = a' @ [h] @ b'"
  shows "a = a' \<and> b = b'"
proof -
  have tw: "h \<notin> set xs \<Longrightarrow> takeWhile (\<lambda>c. c \<noteq> h) (xs @ [h] @ ys) = xs" for xs ys
    by (induction xs) auto
  from tw [OF assms(1), of b] tw [OF assms(2), of b'] have "a = a'" using assms(3) by simp
  with assms(3) show ?thesis by simp
qed

lemma rowTarget_Some:
  assumes "rowTarget codes row = Some (i, k)"
  shows "parse_cols row ! 0 \<in> set codes"
    and "k = parse_cols row ! 0 @ [hyphen] @ parse_cols row ! 1"
proof -
  from assms have f: "findIndex (\<lambda>c. c = parse_cols row ! 0) codes = Some i"
    and k: "k = parse_cols row ! 0 @ [hyphen] @ parse_cols row ! 1"
    by (auto simp: rowTarget_def Let_def split: if_splits)
  from findIndex_Some [OF f] have "i < length codes" "codes ! i = parse_cols row ! 0" by simp_all
  then show "parse_cols row ! 0 \<in> set codes" by (metis nth_mem)
  from k show "k = parse_cols row ! 0 @ [hyphen] @ parse_cols row ! 1" .
qed

lemma demo_valid2: "validSkeleton demoHeap [0, 2]"
  by (simp add: validSkeleton_def demoHeap_def)

lemma demo_codes2: "skeletonCodes demoHeap [0, 2] = [js ''17.2'', js ''A'']"
  by (simp add: skeletonCodes_def demoHeap_def)

section \<open>The claims\<close>

text \<open>
  Claim C1, as amended. In the collection that a parse of a document returns, no two
  Brands have the same id. For every composite id, the first row of the document that has
  three fields or more, names a hall of the skeleton and yields this id creates the
  Brand: the Brand is in the brand list of that row's hall, and its name and booth are
  those of that row. An id that no such row yields is the id of no Brand. So every later
  row with the same id, whatever its category, meets the Brand of the first one. Rows are
  matched by the id, not by the pair of hall code and booth code; when no hall code of
  the skeleton contains a hyphen, two rows with one id have the same hall code and the
  same booth code.
\<close>

theorem one_brand_per_composite_id:
  assumes "validSkeleton h skel"
    and "parseBrandsCSV (Response okFlag (BodyText content)) h skel = Resolved (h', halls)"
    and "rows = rowsOf content" and "codes = skeletonCodes h skel"
  shows "distinct (map brand_id (allBrands h' halls)) \<and>
     (\<forall>k. case find (\<lambda>r. map_option snd (rowTarget codes r) = Some k) rows of
            None \<Rightarrow> k \<notin> set (map brand_id (allBrands h' halls))
          | Some r \<Rightarrow> (\<exists>i x. rowTarget codes r = Some (i, k) \<and>
                x \<in> set (brandsOf h' (halls ! i)) \<and> brand_id x = k \<and>
                name x = parse_cols r ! 2 \<and> booth x = parse_cols r ! 1)) \<and>
     ((\<forall>c\<in>set codes. hyphen \<notin> set c) \<longrightarrow>
        (\<forall>r1 r2 i1 i2 k. rowTarget codes r1 = Some (i1, k) \<and> rowTarget codes r2 = Some (i2, k) \<longrightarrow>
           parse_cols r1 ! 0 = parse_cols r2 ! 0 \<and> parse_cols r1 ! 1 = parse_cols r2 ! 1))"
proof -
  from assms(2) have "parseRows h skel rows = (h', halls)"
    by (simp add: parseBrandsCSV_def tryBlock_def assms(3))
  with assms(1) have "distinct (map brand_id (allBrands h' halls)) \<and>
     (\<forall>k. case find (\<lambda>r. map_option snd (rowTarget codes r) = Some k) rows of
            None \<Rightarrow> k \<notin> set (map brand_id (allBrands h' halls))
          | Some r \<Rightarrow> (\<exists>i x. rowTarget codes r = Some (i, k) \<and>
                x \<in> set (brandsOf h' (halls ! i)) \<and> brand_id x = k \<and>
                name x = parse_cols r ! 2 \<and> booth x = parse_cols r ! 1))"
    using assms(4) by (rule ids_of_parse)
  moreover have "parse_cols r1 ! 0 = parse_cols r2 ! 0 \<and> parse_cols r1 ! 1 = parse_cols r2 ! 1"
    if "\<forall>c\<in>set codes. hyphen \<notin> set c"
      and "rowTarget codes r1 = Some (i1, k) \<and> rowTarget codes r2 = Some (i2, k)"
    for r1 r2 i1 i2 k
  proof -
    from that(2) rowTarget_Some [of codes r1 i1 k] rowTarget_Some [of codes r2 i2 k]
    have m1: "parse_cols r1 ! 0 \<in> set codes" and m2: "parse_cols r2 ! 0 \<in> set codes"
      and e: "parse_cols r1 ! 0 @ [hyphen] @ parse_cols r1 ! 1 =
              parse_cols r2 ! 0 @ [hyphen] @ parse_cols r2 ! 1"
      by simp_all
    from that(1) m1 m2 have "hyphen \<notin> set (parse_cols r1 ! 0)" "hyphen \<notin> set (parse_cols r2 ! 0)"
      by blast+
    then show ?thesis using e by (rule composite_id_inj)
  qed
  ultimately show ?thesis by blast
qed

theorem one_brand_per_composite_id_witness:
  "validSkeleton demoHeap [0, 2] \<and>
   rowsOf (js ''Hall,Booth,Brand,Category,Name,Tag,Note'' @ newline #
       js ''17.2,A01,BYD,Info,,,hello'' @ newline # js ''17.2,A01,Other,Key,Seal'') =
     [js ''17.2,A01,BYD,Info,,,hello'', js ''17.2,A01,Other,Key,Seal''] \<and>
   parseBrandsCSV (Response True (BodyText (js ''Hall,Booth,Brand,Category,Name,Tag,Note'' @ newline #
       js ''17.2,A01,BYD,Info,,,hello'' @ newline # js ''17.2,A01,Other,Key,Seal''))) demoHeap [0, 2] =
     Resolved (parseRows demoHeap [0, 2] [js ''17.2,A01,BYD,Info,,,hello'', js ''17.2,A01,Other,Key,Seal'']) \<and>
   distinct (map brand_id (allBrands
      (fst (parseRows demoHeap [0, 2] [js ''17.2,A01,BYD,Info,,,hello'', js ''17.2,A01,Other,Key,Seal'']))
      (snd (parseRows demoHeap [0, 2] [js ''17.2,A01,BYD,Info,,,hello'', js ''17.2,A01,Other,Key,Seal''])))) \<and>
   (\<exists>i x. rowTarget (skeletonCodes demoHeap [0, 2]) (js ''17.2,A01,BYD,Info,,,hello'') = Some (i, js ''17.2-A01'') \<and>
      x \<in> set (brandsOf
        (fst (parseRows demoHeap [0, 2] [js ''17.2,A01,BYD,Info,,,hello'', js ''17.2,A01,Other,Key,Seal'']))
        (snd (parseRows demoHeap [0, 2] [js ''17.2,A01,BYD,Info,,,hello'', js ''17.2,A01,Other,Key,Seal'']) ! i)) \<and>
      brand_id x = js ''17.2-A01'' \<and> name x = js ''BYD'' \<and> booth x = js ''A01'') \<and>
   collectionBrands (parseRows demoHeap [0, 2] [js ''17.2,A01,BYD,Info,,,hello'', js ''17.2,A01,Other,Key,Seal'']) =
     [[\<lparr>brand_id = js ''17.2-A01'', booth = js ''A01'', name = js ''BYD'', description = js ''hello'',
         models = [\<lparr>model_name = js ''Seal'', highlight = [], isNewLaunch = True, model_note = None\<rparr>],
         fullModelList = []\<rparr>], []] \<and>
   skeletonCodes demoHeap [0, 2] = [js ''17.2'', js ''A''] \<and>
   hyphen \<notin> set (js ''17.2'') \<and> hyphen \<notin> set (js ''A'') \<and>
   rowTarget (skeletonCodes demoHeap [0, 2]) (js ''17.2,A01,BYD,Info,,,hello'') = Some (0, js ''17.2-A01'') \<and>
   rowTarget (skeletonCodes demoHeap [0, 2]) (js ''17.2,A01,Other,Key,Seal'') = Some (0, js ''17.2-A01'') \<and>
   parse_cols (js ''17.2,A01,BYD,Info,,,hello'') ! 0 = parse_cols (js ''17.2,A01,Other,Key,Seal'') ! 0 \<and>
   parse_cols (js ''17.2,A01,BYD,Info,,,hello'') ! 1 = parse_cols (js ''17.2,A01,Other,Key,Seal'') ! 1"
proof -
  let ?r1 = "js ''17.2,A01,BYD,Info,,,hello''"
  let ?r2 = "js ''17.2,A01,Other,Key,Seal''"
  let ?doc = "js ''Hall,Booth,Brand,Category,Name,Tag,Note'' @ newline # ?r1 @ newline # ?r2"
  let ?R = "parseRows demoHeap [0, 2] [?r1, ?r2]"
  let ?codes = "skeletonCodes demoHeap [0, 2]"
  have rows: "rowsOf ?doc = [?r1, ?r2]"
    by (simp add: rowsOf_def newline_def trim_def isWhiteSpace_def)
  have run: "parseBrandsCSV (Response True (BodyText ?doc)) demoHeap [0, 2] = Resolved (fst ?R, snd ?R)"
    by (simp only: parseBrandsCSV_def tryBlock_def rows fetch_result.case body_result.case
        sum.case prod.collapse)
  then have run': "parseBrandsCSV (Response True (BodyText ?doc)) demoHeap [0, 2] = Resolved ?R"
    by (simp only: prod.collapse)
  have c1: "parse_cols ?r1 = [js ''17.2'', js ''A01'', js ''BYD'', js ''Info'', [], [], js ''hello'']"
    by (simp add: eval_cols)
  have c2: "parse_cols ?r2 = [js ''17.2'', js ''A01'', js ''Other'', js ''Key'', js ''Seal'']"
    by (simp add: eval_cols)
  have t1: "rowTarget ?codes ?r1 = Some (0, js ''17.2-A01'')"
    unfolding demo_codes2 rowTarget_def c1 by (simp add: hyphen_def)
  have t2: "rowTarget ?codes ?r2 = Some (0, js ''17.2-A01'')"
    unfolding demo_codes2 rowTarget_def c2 by (simp add: hyphen_def)
  have nh: "hyphen \<notin> set (js ''17.2'')" "hyphen \<notin> set (js ''A'')"
    by (simp_all add: hyphen_def)
  then have nohyphen: "\<forall>c\<in>set ?codes. hyphen \<notin> set c"
    unfolding demo_codes2 by simp
  have f: "find (\<lambda>r. map_option snd (rowTarget ?codes r) = Some (js ''17.2-A01''))
      [?r1, ?r2] = Some ?r1"
    unfolding find.simps t1 by simp
  note inst = one_brand_per_composite_id [OF demo_valid2 run rows [symmetric] refl]
  from inst have d: "distinct (map brand_id (allBrands (fst ?R) (snd ?R)))"
    and e: "case find (\<lambda>r. map_option snd (rowTarget ?codes r) = Some (js ''17.2-A01''))
        [?r1, ?r2] of
            None \<Rightarrow> js ''17.2-A01'' \<notin> set (map brand_id (allBrands (fst ?R) (snd ?R)))
          | Some r \<Rightarrow> (\<exists>i x. rowTarget ?codes r = Some (i, js ''17.2-A01'') \<and>
                x \<in> set (brandsOf (fst ?R) (snd ?R ! i)) \<and> brand_id x = js ''17.2-A01'' \<and>
                name x = parse_cols r ! 2 \<and> booth x = parse_cols r ! 1)"
    by blast+
  from inst nohyphen t1 t2
  have same: "parse_cols ?r1 ! 0 = parse_cols ?r2 ! 0 \<and> parse_cols ?r1 ! 1 = parse_cols ?r2 ! 1"
    by blast
  from e have ex: "\<exists>i x. rowTarget ?codes ?r1 = Some (i, js ''17.2-A01'') \<and>
                x \<in> set (brandsOf (fst ?R) (snd ?R ! i)) \<and> brand_id x = js ''17.2-A01'' \<and>
                name x = js ''BYD'' \<and> booth x = js ''A01''"
    unfolding f option.case c1 by simp
  have v: "collectionBrands ?R =
     [[\<lparr>brand_id = js ''17.2-A01'', booth = js ''A01'', name = js ''BYD'', description = js ''hello'',
         models = [\<lparr>model_name = js ''Seal'', highlight = [], isNewLaunch = True, model_note = None\<rparr>],
         fullModelList = []\<rparr>], []]"
    by (simp add: eval_parser demoHeap_def eval_cols)
  from demo_valid2 rows run' d ex v demo_codes2 nh t1 t2 same show ?thesis by blast
qed

text \<open>
  Claim C1 as stated fails when two pairs of hall code and booth code give one id, which
  a hyphen in a hall code allows: with halls \<open>A-B\<close> and \<open>A\<close>, the row for hall \<open>A\<close>
  and booth \<open>B-C\<close> is the first one with its hall code and booth code, yet it creates
  no Brand and hall \<open>A\<close> has none; the row meets the Brand \<open>A-B-C\<close> of hall \<open>A-B\<close>.
\<close>

theorem colliding_ids_share_one_brand:
  "parse_cols (js ''A-B,C,N1'') = [js ''A-B'', js ''C'', js ''N1''] \<and>
   parse_cols (js ''A,B-C,N2'') = [js ''A'', js ''B-C'', js ''N2''] \<and>
   skeletonCodes demoHeap [0, 1, 2] = [js ''17.2'', js ''A-B'', js ''A''] \<and>
   collectionBrands (parseRows demoHeap [0, 1, 2] [js ''A-B,C,N1'', js ''A,B-C,N2'']) =
     [[], [\<lparr>brand_id = js ''A-B-C'', booth = js ''C'', name = js ''N1'', description = [],
            models = [], fullModelList = []\<rparr>], []]"
  by (simp add: eval_parser demoHeap_def eval_cols skeletonCodes_def)

text \<open>
  Claim C2, as amended. After any rows, let a row have three fields or more and name a
  hall of the skeleton, and let \<open>x\<close> be the Brand of its id, just created when the map
  had none. With the category \<open>Key\<close> and a model name that is present and not empty,
  the Brand becomes \<open>x\<close> with one entry appended to \<open>models\<close>: the model name, the tag
  or the empty string when the row has no tag field, \<open>isNewLaunch\<close> true, and as note
  the note field, which is \<open>undefined\<close> (not the empty string) when the row has fewer
  than seven fields. With \<open>Normal\<close> the same entry, \<open>isNewLaunch\<close> false, is appended
  to \<open>fullModelList\<close>. With a model name that is absent or empty the Brand is \<open>x\<close>.
  No other Brand changes.
\<close>

theorem key_and_normal_rows_append_entries:
  assumes "validSkeleton h skel" and "st = foldl processRow (initState h skel) before"
    and "cols = parse_cols row" and "3 \<le> length cols" and "cols ! 0 \<in> set (skeletonCodes h skel)"
    and "k = cols ! 0 @ [hyphen] @ cols ! 1"
    and "x = (case brandById st k of None \<Rightarrow> newBrand k (cols ! 1) (cols ! 2) | Some y \<Rightarrow> y)"
    and "entry = (\<lambda>m isNew. \<lparr>model_name = m,
            highlight = (case nth_opt cols 5 of None \<Rightarrow> [] | Some t \<Rightarrow> t),
            isNewLaunch = isNew, model_note = nth_opt cols 6\<rparr>)"
  shows "(nth_opt cols 3 = Some (js ''Key'') \<longrightarrow>
            brandById (processRow st row) k =
              Some (case nth_opt cols 4 of
                      None \<Rightarrow> x
                    | Some m \<Rightarrow> if m = [] then x else x\<lparr>models := models x @ [entry m True]\<rparr>)) \<and>
         (nth_opt cols 3 = Some (js ''Normal'') \<longrightarrow>
            brandById (processRow st row) k =
              Some (case nth_opt cols 4 of
                      None \<Rightarrow> x
                    | Some m \<Rightarrow> if m = [] then x
                        else x\<lparr>fullModelList := fullModelList x @ [entry m False]\<rparr>)) \<and>
         (\<forall>k'. k' \<noteq> k \<longrightarrow> brandById (processRow st row) k' = brandById st k') \<and>
         the (brandById (processRow st row) k) \<in>
           set (allBrands (processRow st row) (updatedHalls (processRow st row)))"
proof -
  have ne: "js ''Key'' \<noteq> js ''Info''" "js ''Normal'' \<noteq> js ''Info''" "js ''Normal'' \<noteq> js ''Key''"
    by simp_all
  have hl: "orEmpty t = (case t of None \<Rightarrow> [] | Some s \<Rightarrow> s)" for t
    by (simp add: orEmpty_def truthy_def split: option.splits)
  note step = reachable_step [OF assms(1,2) assms(4,5,6,7) [unfolded assms(3)]]
  have key: "brandById (processRow st row) k =
              Some (case nth_opt cols 4 of
                      None \<Rightarrow> x
                    | Some m \<Rightarrow> if m = [] then x else x\<lparr>models := models x @ [entry m True]\<rparr>)"
    if "nth_opt cols 3 = Some (js ''Key'')"
    using step(1) that ne unfolding assms(3) assms(8)
    by (simp add: rowUpdate_def brandUpdate_def Let_def truthy_def hl split: option.splits)
  have normal: "brandById (processRow st row) k =
              Some (case nth_opt cols 4 of
                      None \<Rightarrow> x
                    | Some m \<Rightarrow> if m = [] then x
                        else x\<lparr>fullModelList := fullModelList x @ [entry m False]\<rparr>)"
    if "nth_opt cols 3 = Some (js ''Normal'')"
    using step(1) that ne unfolding assms(3) assms(8)
    by (simp add: rowUpdate_def brandUpdate_def Let_def truthy_def hl split: option.splits)
  have "pinv (length (arrays h)) (length (brandObjs h)) (processRow st row)"
    using pinv_reachable [OF assms(1), where rows = "before @ [row]"] by (simp add: assms(2))
  then have "the (brandById (processRow st row) k) \<in>
      set (allBrands (processRow st row) (updatedHalls (processRow st row)))"
    using step(1) by (intro brandById_in_collection) simp_all
  with key normal step(2) show ?thesis by blast
qed

theorem key_and_normal_rows_append_entries_witness:
  "validSkeleton demoHeap [0, 1, 2] \<and>
   parse_cols (js ''17.2,A01,BYD,Key,Seal,New,fast'') =
     [js ''17.2'', js ''A01'', js ''BYD'', js ''Key'', js ''Seal'', js ''New'', js ''fast''] \<and>
   js ''17.2'' \<in> set (skeletonCodes demoHeap [0, 1, 2]) \<and>
   brandById (processRow (foldl processRow (initState demoHeap [0, 1, 2]) [])
       (js ''17.2,A01,BYD,Key,Seal,New,fast'')) (js ''17.2-A01'') =
     Some \<lparr>brand_id = js ''17.2-A01'', booth = js ''A01'', name = js ''BYD'', description = [],
            models = [\<lparr>model_name = js ''Seal'', highlight = js ''New'', isNewLaunch = True,
                       model_note = Some (js ''fast'')\<rparr>],
            fullModelList = []\<rparr> \<and>
   parse_cols (js ''17.2,A01,BYD,Normal,Dolphin,,city'') =
     [js ''17.2'', js ''A01'', js ''BYD'', js ''Normal'', js ''Dolphin'', [], js ''city''] \<and>
   brandById (processRow (foldl processRow (initState demoHeap [0, 1, 2])
         [js ''17.2,A01,BYD,Key,Seal,New,fast''])
       (js ''17.2,A01,BYD,Normal,Dolphin,,city'')) (js ''17.2-A01'') =
     Some \<lparr>brand_id = js ''17.2-A01'', booth = js ''A01'', name = js ''BYD'', description = [],
            models = [\<lparr>model_name = js ''Seal'', highlight = js ''New'', isNewLaunch = True,
                       model_note = Some (js ''fast'')\<rparr>],
            fullModelList = [\<lparr>model_name = js ''Dolphin'', highlight = [], isNewLaunch = False,
                       model_note = Some (js ''city'')\<rparr>]\<rparr>"
proof -
  let ?st = "foldl processRow (initState demoHeap [0, 1, 2]) []"
  let ?row = "js ''17.2,A01,BYD,Key,Seal,New,fast''"
  have cols: "parse_cols ?row =
      [js ''17.2'', js ''A01'', js ''BYD'', js ''Key'', js ''Seal'', js ''New'', js ''fast'']"
    by (simp add: eval_cols)
  have h3: "3 \<le> length (parse_cols ?row)" unfolding cols by simp
  have h4: "js ''17.2'' \<in> set (skeletonCodes demoHeap [0, 1, 2])"
    unfolding demo_codes by simp
  then have h4': "parse_cols ?row ! 0 \<in> set (skeletonCodes demoHeap [0, 1, 2])"
    unfolding cols by simp
  have k: "js ''17.2-A01'' = parse_cols ?row ! 0 @ [hyphen] @ parse_cols ?row ! 1"
    unfolding cols by (simp add: hyphen_def)
  have b: "brandById ?st (js ''17.2-A01'') = None"
    by (simp add: brandById_def initState_def demoHeap_def)
  from key_and_normal_rows_append_entries [where before = "[]", OF demo_valid refl refl h3 h4' k refl refl]
  have first: "brandById (processRow ?st ?row) (js ''17.2-A01'') =
     Some \<lparr>brand_id = js ''17.2-A01'', booth = js ''A01'', name = js ''BYD'', description = [],
            models = [\<lparr>model_name = js ''Seal'', highlight = js ''New'', isNewLaunch = True,
                       model_note = Some (js ''fast'')\<rparr>],
            fullModelList = []\<rparr>"
    unfolding b cols by (simp add: nth_opt_def newBrand_def)
  let ?st2 = "foldl processRow (initState demoHeap [0, 1, 2]) [?row]"
  let ?row2 = "js ''17.2,A01,BYD,Normal,Dolphin,,city''"
  have cols2: "parse_cols ?row2 =
      [js ''17.2'', js ''A01'', js ''BYD'', js ''Normal'', js ''Dolphin'', [], js ''city'']"
    by (simp add: eval_cols)
  have g3: "3 \<le> length (parse_cols ?row2)" unfolding cols2 by simp
  have g4: "parse_cols ?row2 ! 0 \<in> set (skeletonCodes demoHeap [0, 1, 2])"
    unfolding demo_codes cols2 by simp
  have k2: "js ''17.2-A01'' = parse_cols ?row2 ! 0 @ [hyphen] @ parse_cols ?row2 ! 1"
    unfolding cols2 by (simp add: hyphen_def)
  have b2: "brandById ?st2 (js ''17.2-A01'') =
     Some \<lparr>brand_id = js ''17.2-A01'', booth = js ''A01'', name = js ''BYD'', description = [],
            models = [\<lparr>model_name = js ''Seal'', highlight = js ''New'', isNewLaunch = True,
                       model_note = Some (js ''fast'')\<rparr>],
            fullModelList = []\<rparr>"
    using first by simp
  from key_and_normal_rows_append_entries [where before = "[?row]", OF demo_valid refl refl g3 g4 k2 refl refl]
  have second: "brandById (processRow ?st2 ?row2) (js ''17.2-A01'') =
     Some \<lparr>brand_id = js ''17.2-A01'', booth = js ''A01'', name = js ''BYD'', description = [],
            models = [\<lparr>model_name = js ''Seal'', highlight = js ''New'', isNewLaunch = True,
                       model_note = Some (js ''fast'')\<rparr>],
            fullModelList = [\<lparr>model_name = js ''Dolphin'', highlight = [], isNewLaunch = False,
                       model_note = Some (js ''city'')\<rparr>]\<rparr>"
    unfolding b2 cols2 by (simp add: nth_opt_def)
  from demo_valid cols h4 first cols2 second show ?thesis by blast
qed

text \<open>
  Claim C2 as stated fails on a \<open>Key\<close> row that ends after the model name: the
  entry's note is \<open>undefined\<close>, not the empty string.
\<close>

theorem absent_note_is_undefined:
  "parse_cols (js ''17.2,A01,BYD,Key,Seal'') = [js ''17.2'', js ''A01'', js ''BYD'', js ''Key'', js ''Seal''] \<and>
   collectionBrands (parseRows demoHeap [0, 1, 2] [js ''17.2,A01,BYD,Key,Seal'']) =
     [[\<lparr>brand_id = js ''17.2-A01'', booth = js ''A01'', name = js ''BYD'', description = [],
         models = [\<lparr>model_name = js ''Seal'', highlight = [], isNewLaunch = True,
                    model_note = None\<rparr>],
         fullModelList = []\<rparr>], [], []]"
  by (simp add: eval_parser demoHeap_def eval_cols)

text \<open>
  Claim C3, as amended. The promise of \<open>parseBrandsCSV\<close> is never rejected. When
  \<open>fetch\<close> rejects or reading the body rejects, the result is the array \<open>skeletonHalls\<close>
  itself and the heap is as before. When an exception is thrown anywhere in lines 10 to
  82, after any number of their writes, the result is again the array \<open>skeletonHalls\<close>
  itself, with the heap of that moment, which is one of the heaps of the run from the heap
  at the call to the heap of the complete parse. A response is not a failure because of
  its status: whatever \<open>ok\<close> is, the body is parsed and the result is that of the parse.
  In every case, so also after an exception in the middle of the parse, the objects that
  existed before the call, the skeleton's halls, arrays and Brands among them, are
  unchanged in the heap of the result.
\<close>

theorem failure_returns_skeleton:
  "(\<exists>r. parseBrandsCSV fr h skel = Resolved r) \<and>
   (fr = FetchRejected \<or> (\<exists>okFlag. fr = Response okFlag BodyRejected) \<longrightarrow>
      parseBrandsCSV fr h skel = Resolved (h, skel)) \<and>
   (\<forall>okFlag text n. fr = Response okFlag (BodyTextThenThrow text n) \<longrightarrow>
      parseBrandsCSV fr h skel = Resolved (heapAtThrow h skel (rowsOf text) n, skel) \<and>
      heapAtThrow h skel (rowsOf text) n \<in> set (parseTrace h skel (rowsOf text)) \<and>
      hd (parseTrace h skel (rowsOf text)) = h \<and>
      last (parseTrace h skel (rowsOf text)) = fst (parseRows h skel (rowsOf text))) \<and>
   (\<forall>okFlag text. fr = Response okFlag (BodyText text) \<longrightarrow>
      parseBrandsCSV fr h skel = Resolved (parseRows h skel (rowsOf text))) \<and>
   (validSkeleton h skel \<longrightarrow>
      (\<forall>h' halls. parseBrandsCSV fr h skel = Resolved (h', halls) \<longrightarrow> unchangedFrom h h'))"
proof -
  have u: "unchangedFrom h h" by (simp add: unchangedFrom_def)
  have "validSkeleton h skel \<Longrightarrow> parseBrandsCSV fr h skel = Resolved (h', halls) \<Longrightarrow>
      unchangedFrom h h'" for h' halls
  proof (cases fr)
    case FetchRejected
    assume "parseBrandsCSV fr h skel = Resolved (h', halls)"
    with FetchRejected u show ?thesis by (simp add: parseBrandsCSV_def tryBlock_def)
  next
    case (Response okFlag b)
    assume v: "validSkeleton h skel" and r: "parseBrandsCSV fr h skel = Resolved (h', halls)"
    show ?thesis
    proof (cases b)
      case BodyRejected
      with Response r u show ?thesis by (simp add: parseBrandsCSV_def tryBlock_def)
    next
      case (BodyText content)
      with Response r have "parseRows h skel (rowsOf content) = (h', halls)"
        by (simp add: parseBrandsCSV_def tryBlock_def)
      with v show ?thesis by (rule parseRows_unchanged)
    next
      case (BodyTextThenThrow content n)
      with Response r have "h' = heapAtThrow h skel (rowsOf content) n"
        by (auto simp: parseBrandsCSV_def tryBlock_def)
      then have "h' \<in> set (parseTrace h skel (rowsOf content))"
        by (simp add: heapAtThrow_in_trace)
      with v show ?thesis by (rule parseTrace_unchanged)
    qed
  qed
  moreover have "\<exists>r. parseBrandsCSV fr h skel = Resolved r"
    by (simp add: parseBrandsCSV_def tryBlock_def split: fetch_result.splits body_result.splits)
  moreover have "fr = FetchRejected \<or> (\<exists>okFlag. fr = Response okFlag BodyRejected) \<longrightarrow>
      parseBrandsCSV fr h skel = Resolved (h, skel)"
    by (auto simp: parseBrandsCSV_def tryBlock_def)
  moreover have "\<forall>okFlag text. fr = Response okFlag (BodyText text) \<longrightarrow>
      parseBrandsCSV fr h skel = Resolved (parseRows h skel (rowsOf text))"
    by (simp add: parseBrandsCSV_def tryBlock_def)
  moreover have "\<forall>okFlag text n. fr = Response okFlag (BodyTextThenThrow text n) \<longrightarrow>
      parseBrandsCSV fr h skel = Resolved (heapAtThrow h skel (rowsOf text) n, skel) \<and>
      heapAtThrow h skel (rowsOf text) n \<in> set (parseTrace h skel (rowsOf text)) \<and>
      hd (parseTrace h skel (rowsOf text)) = h \<and>
      last (parseTrace h skel (rowsOf text)) = fst (parseRows h skel (rowsOf text))"
    by (simp add: parseBrandsCSV_def tryBlock_def heapAtThrow_in_trace parseTrace_last)
      (simp add: parseTrace_def)
  ultimately show ?thesis by blast
qed

theorem failure_returns_skeleton_witness:
  "parseBrandsCSV FetchRejected demoHeap [0, 1, 2] = Resolved (demoHeap, [0, 1, 2]) \<and>
   parseBrandsCSV (Response True BodyRejected) demoHeap [0, 1, 2] = Resolved (demoHeap, [0, 1, 2]) \<and>
   parseBrandsCSV
       (Response True (BodyTextThenThrow (js ''Hall,Booth,Brand'' @ newline # js ''17.2,A01,BYD'') 9))
       demoHeap [0, 1, 2] =
     Resolved (heapAtThrow demoHeap [0, 1, 2] [js ''17.2,A01,BYD''] 9, [0, 1, 2]) \<and>
   arrays (heapAtThrow demoHeap [0, 1, 2] [js ''17.2,A01,BYD''] 9) = [[0], [], [], [1], [], []] \<and>
   length (brandObjs (heapAtThrow demoHeap [0, 1, 2] [js ''17.2,A01,BYD''] 9)) = 2 \<and>
   unchangedFrom demoHeap (heapAtThrow demoHeap [0, 1, 2] [js ''17.2,A01,BYD''] 9) \<and>
   collectionBrands (heapAtThrow demoHeap [0, 1, 2] [js ''17.2,A01,BYD''] 9, [0, 1, 2]) =
     collectionBrands (demoHeap, [0, 1, 2]) \<and>
   parseBrandsCSV (Response True (BodyText (js ''Hall,Booth,Brand'' @ newline # js ''17.2,A01,BYD'')))
       demoHeap [0, 1, 2] =
     Resolved (parseRows demoHeap [0, 1, 2]
       (rowsOf (js ''Hall,Booth,Brand'' @ newline # js ''17.2,A01,BYD''))) \<and>
   validSkeleton demoHeap [0, 1, 2] \<and>
   unchangedFrom demoHeap (fst (parseRows demoHeap [0, 1, 2]
       (rowsOf (js ''Hall,Booth,Brand'' @ newline # js ''17.2,A01,BYD''))))"
proof -
  let ?text = "js ''Hall,Booth,Brand'' @ newline # js ''17.2,A01,BYD''"
  let ?R = "parseRows demoHeap [0, 1, 2] (rowsOf ?text)"
  let ?H = "heapAtThrow demoHeap [0, 1, 2] [js ''17.2,A01,BYD''] 9"
  note a = failure_returns_skeleton [of FetchRejected demoHeap "[0, 1, 2]"]
  note b = failure_returns_skeleton [of "Response True BodyRejected" demoHeap "[0, 1, 2]"]
  note c = failure_returns_skeleton [of "Response True (BodyText ?text)" demoHeap "[0, 1, 2]"]
  note d = failure_returns_skeleton [of "Response True (BodyTextThenThrow ?text 9)" demoHeap "[0, 1, 2]"]
  from a have 1: "parseBrandsCSV FetchRejected demoHeap [0, 1, 2] = Resolved (demoHeap, [0, 1, 2])"
    by blast
  from b have 2: "parseBrandsCSV (Response True BodyRejected) demoHeap [0, 1, 2] =
      Resolved (demoHeap, [0, 1, 2])"
    by blast
  from c have 3: "parseBrandsCSV (Response True (BodyText ?text)) demoHeap [0, 1, 2] = Resolved ?R"
    by blast
  then have "parseBrandsCSV (Response True (BodyText ?text)) demoHeap [0, 1, 2] =
      Resolved (fst ?R, snd ?R)" by simp
  with c demo_valid have 4: "unchangedFrom demoHeap (fst ?R)" by blast
  from d have "parseBrandsCSV (Response True (BodyTextThenThrow ?text 9)) demoHeap [0, 1, 2] =
      Resolved (heapAtThrow demoHeap [0, 1, 2] (rowsOf ?text) 9, [0, 1, 2])"
    by blast
  then have 5: "parseBrandsCSV (Response True (BodyTextThenThrow ?text 9)) demoHeap [0, 1, 2] =
      Resolved (?H, [0, 1, 2])"
    by (simp only: demo_doc)
  with d demo_valid have 6: "unchangedFrom demoHeap ?H" by blast
  have 7: "arrays ?H = [[0], [], [], [1], [], []]"
    by (simp add: eval_trace eval_parser demoHeap_def eval_cols)
  have 8: "length (brandObjs ?H) = 2"
    by (simp add: eval_trace eval_parser demoHeap_def eval_cols)
  have 9: "collectionBrands (?H, [0, 1, 2]) = collectionBrands (demoHeap, [0, 1, 2])"
    by (simp add: eval_trace eval_parser demoHeap_def eval_cols)
  from 1 2 3 4 5 6 7 8 9 demo_valid show ?thesis by blast
qed

text \<open>
  Claim C3 as stated fails on a response that is not OK: its body is parsed like any
  other. A body with a row gives a collection with that row's Brand, and the body
  \<open>Not Found\<close> gives new halls without brands, where the skeleton's first hall has one.
\<close>

theorem error_response_body_is_parsed:
  "parseBrandsCSV (Response False (BodyText (js ''Hall,Booth,Brand'' @ newline # js ''17.2,A01,BYD'')))
       demoHeap [0, 1, 2] =
     Resolved (parseRows demoHeap [0, 1, 2] [js ''17.2,A01,BYD'']) \<and>
   snd (parseRows demoHeap [0, 1, 2] [js ''17.2,A01,BYD'']) = [3, 4, 5] \<and>
   collectionBrands (parseRows demoHeap [0, 1, 2] [js ''17.2,A01,BYD'']) =
     [[\<lparr>brand_id = js ''17.2-A01'', booth = js ''A01'', name = js ''BYD'', description = [],
         models = [], fullModelList = []\<rparr>], [], []] \<and>
   parseBrandsCSV (Response False (BodyText (js ''Not Found''))) demoHeap [0, 1, 2] =
     Resolved (parseRows demoHeap [0, 1, 2] []) \<and>
   collectionBrands (parseRows demoHeap [0, 1, 2] []) = [[], [], []] \<and>
   collectionBrands (demoHeap, [0, 1, 2]) =
     [[\<lparr>brand_id = js ''17.2-Z9'', booth = js ''Z9'', name = js ''Old'',
         description = js ''stale'', models = [], fullModelList = []\<rparr>], [], []]"
proof -
  have d2: "rowsOf (js ''Not Found'') = []"
    by (simp add: rowsOf_def newline_def)
  have "parseBrandsCSV (Response False (BodyText (js ''Hall,Booth,Brand'' @ newline # js ''17.2,A01,BYD'')))
       demoHeap [0, 1, 2] = Resolved (parseRows demoHeap [0, 1, 2] [js ''17.2,A01,BYD''])"
    by (simp only: parseBrandsCSV_def tryBlock_def demo_doc fetch_result.case body_result.case sum.case)
  moreover have "parseBrandsCSV (Response False (BodyText (js ''Not Found''))) demoHeap [0, 1, 2] =
     Resolved (parseRows demoHeap [0, 1, 2] [])"
    by (simp only: parseBrandsCSV_def tryBlock_def d2 fetch_result.case body_result.case sum.case)
  moreover have "snd (parseRows demoHeap [0, 1, 2] [js ''17.2,A01,BYD'']) = [3, 4, 5]"
    by (simp add: eval_parser demoHeap_def eval_cols)
  moreover have "collectionBrands (parseRows demoHeap [0, 1, 2] [js ''17.2,A01,BYD'']) =
     [[\<lparr>brand_id = js ''17.2-A01'', booth = js ''A01'', name = js ''BYD'', description = [],
         models = [], fullModelList = []\<rparr>], [], []]"
    by (simp add: eval_parser demoHeap_def eval_cols)
  moreover have "collectionBrands (parseRows demoHeap [0, 1, 2] []) = [[], [], []]"
    by (simp add: eval_parser demoHeap_def)
  moreover have "collectionBrands (demoHeap, [0, 1, 2]) =
     [[\<lparr>brand_id = js ''17.2-Z9'', booth = js ''Z9'', name = js ''Old'',
         description = js ''stale'', models = [], fullModelList = []\<rparr>], [], []]"
    by (simp add: collectionBrands_def brandsOf_def demoHeap_def)
  ultimately show ?thesis by blast
qed

text \<open>
  Claim C4, as amended. The splitter cuts the row at a comma exactly when an even number
  of double quotes follows the comma in the row. On a row with an even number of double
  quotes this is the scanner of the specification, which cuts at the commas outside the
  quoted spans. A field wrapped in double quotes, whose content has commas but no quote,
  standing between the start of the row or a comma and the end of the row or a comma, and
  followed by an even number of double quotes, is one column, and the column is the
  content.
\<close>

theorem quoted_field_is_one_column:
  "split_row (c # cs) =
     (if c = comma \<and> even (count_list cs dquote) then [] # split_row cs
      else cons_first c (split_row cs)) \<and>
   (even (count_list row dquote) \<longrightarrow> split_row row = spec_split False row) \<and>
   (dquote \<notin> set s \<and> even (count_list post dquote) \<and>
      (pre = [] \<or> last pre = comma) \<and> (post = [] \<or> hd post = comma) \<longrightarrow>
    parse_cols (pre @ dquote # s @ dquote # post) =
      (if pre = [] then [] else parse_cols (butlast pre)) @ [s] @
      (if post = [] then [] else parse_cols (tl post)))"
proof (intro conjI impI)
  show "split_row (c # cs) =
     (if c = comma \<and> even (count_list cs dquote) then [] # split_row cs
      else cons_first c (split_row cs))"
    by (rule split_row_Cons)
next
  assume "even (count_list row dquote)"
  then show "split_row row = spec_split False row" by (simp add: split_row_spec)
next
  assume a: "dquote \<notin> set s \<and> even (count_list post dquote) \<and>
      (pre = [] \<or> last pre = comma) \<and> (post = [] \<or> hd post = comma)"
  then have q: "split_row (dquote # s @ dquote # post) =
           (dquote # s @ [dquote]) # (if post = [] then [] else split_row (tl post))"
    by (intro split_row_quoted) auto
  have n: "normalize_field (dquote # s @ [dquote]) = s"
    using a by (simp add: normalize_quoted)
  show "parse_cols (pre @ dquote # s @ dquote # post) =
      (if pre = [] then [] else parse_cols (butlast pre)) @ [s] @
      (if post = [] then [] else parse_cols (tl post))"
  proof (cases "pre = []")
    case True
    then show ?thesis by (simp add: parse_cols_def q n)
  next
    case False
    with a obtain p where pre: "pre = p @ [comma]"
      using append_butlast_last_id [of pre] by metis
    have "even (count_list (dquote # s @ dquote # post) dquote)" using a by simp
    then have "split_row (p @ comma # (dquote # s @ dquote # post)) =
        split_row p @ split_row (dquote # s @ dquote # post)"
      by (rule split_row_comma)
    then show ?thesis by (simp add: pre parse_cols_def q n)
  qed
qed

theorem quoted_field_is_one_column_witness:
  \<open>even (count_list (js ''A,"Sedan, Luxury Edition",B'') dquote) \<and>
   split_row (js ''A,"Sedan, Luxury Edition",B'') = spec_split False (js ''A,"Sedan, Luxury Edition",B'') \<and>
   dquote \<notin> set (js ''Sedan, Luxury Edition'') \<and> even (count_list (js '',B'') dquote) \<and>
   last (js ''A,'') = comma \<and> hd (js '',B'') = comma \<and>
   parse_cols (js ''A,'' @ dquote # js ''Sedan, Luxury Edition'' @ dquote # js '',B'') =
     [js ''A'', js ''Sedan, Luxury Edition'', js ''B'']\<close>
proof -
  have e: \<open>even (count_list (js ''A,"Sedan, Luxury Edition",B'') dquote)\<close>
    by (simp add: dquote_def)
  have h: \<open>dquote \<notin> set (js ''Sedan, Luxury Edition'') \<and> even (count_list (js '',B'') dquote) \<and>
      (js ''A,'' = [] \<or> last (js ''A,'') = comma) \<and> (js '',B'' = [] \<or> hd (js '',B'') = comma)\<close>
    by (simp add: dquote_def comma_def)
  have pa: "parse_cols (js ''A'') = [js ''A'']" and pb: "parse_cols (js ''B'') = [js ''B'']"
    by (simp_all add: parse_cols_def split_row_Cons normalize_field_def trim_def
          isWhiteSpace_def startsWith_def endsWith_def comma_def dquote_def)
  from quoted_field_is_one_column [where row = \<open>js ''A,"Sedan, Luxury Edition",B''\<close>
      and s = "js ''Sedan, Luxury Edition''" and post = "js '',B''" and pre = "js ''A,''"] e h
  show ?thesis using pa pb by (simp add: comma_def dquote_def)
qed

text \<open>
  Claim C4 as stated fails on a row with a stray quote after the wrapped field: the
  wrapped field of the row \<^verbatim>\<open>"Sedan, Luxury Edition",19" rims\<close> is cut at its comma.
\<close>

theorem stray_quote_splits_quoted_field:
  \<open>parse_cols (js ''"Sedan, Luxury Edition",19" rims'') =
     [js ''"Sedan'', js ''Luxury Edition",19" rims'']\<close>
  by (simp add: parse_cols_def split_row_Cons normalize_field_def trim_def
          isWhiteSpace_def startsWith_def endsWith_def comma_def dquote_def slice_1_m1_def)

text \<open>
  Claim C5 at the field that is one double quote and nothing else. The field starts with
  a quote and ends with a quote, so lines 25 to 27 remove it and the column is empty,
  where stripping a matching pair would leave the field as it is. This is the first
  column of the row \<^verbatim>\<open>",B1,Acme\<close>. The field \<^verbatim>\<open>"5.0""L Engine"\<close> of the claim
  is normalized as the claim says.
\<close>

theorem lone_quote_is_stripped:
  \<open>parse_cols (js ''",B1,Acme'') = [[], js ''B1'', js ''Acme''] \<and>
   map spec_normalize (split_row (js ''",B1,Acme'')) = [js ''"'', js ''B1'', js ''Acme''] \<and>
   normalize_field (js ''"5.0""L Engine"'') = js ''5.0"L Engine'' \<and>
   parse_cols (js ''17.2,A01,BYD,Key,"5.0""L Engine"'') =
     [js ''17.2'', js ''A01'', js ''BYD'', js ''Key'', js ''5.0"L Engine'']\<close>
  by (simp add: parse_cols_def split_row_Cons normalize_field_def spec_normalize_def
        spec_strip_pair_def trim_def isWhiteSpace_def startsWith_def endsWith_def comma_def
        dquote_def slice_1_m1_def)

text \<open>
  Claim C6. A row whose hall code is the code of no hall of the skeleton changes nothing,
  whatever rows came before: the state of the loop after it, with the heap and the map of
  ids, is the state before it. The rows of the document with it and without it give the
  same result, and so do the two documents.
\<close>

theorem unknown_hall_row_is_ignored:
  assumes "validSkeleton h skel" and "hd (parse_cols row) \<notin> set (skeletonCodes h skel)"
  shows "processRow (foldl processRow (initState h skel) before) row =
           foldl processRow (initState h skel) before \<and>
         parseRows h skel (before @ row # after) = parseRows h skel (before @ after) \<and>
         (newline \<notin> set row \<longrightarrow>
            parseBrandsCSV (Response okFlag (BodyText (pre @ newline # row @ newline # post))) h skel =
            parseBrandsCSV (Response okFlag (BodyText (pre @ newline # post))) h skel)"
proof -
  have t: "rowTarget (codesOf (initState h skel)) row = None"
    using assms by (simp add: codesOf_init rowTarget_unknown)
  then have "rowTarget (codesOf (foldl processRow (initState h skel) before)) row = None"
    by simp
  then have "processRow (foldl processRow (initState h skel) before) row =
           foldl processRow (initState h skel) before"
    by (rule processRow_skip)
  with t show ?thesis by (simp add: parseRows_skip parse_document_skip)
qed

theorem unknown_hall_row_is_ignored_witness:
  "validSkeleton demoHeap [0, 1, 2] \<and>
   hd (parse_cols (js ''9.9,B1,Acme,Info,,,n'')) \<notin> set (skeletonCodes demoHeap [0, 1, 2]) \<and>
   newline \<notin> set (js ''9.9,B1,Acme,Info,,,n'') \<and>
   parseRows demoHeap [0, 1, 2] ([js ''17.2,A01,BYD''] @ js ''9.9,B1,Acme,Info,,,n'' # []) =
     parseRows demoHeap [0, 1, 2] ([js ''17.2,A01,BYD''] @ []) \<and>
   parseBrandsCSV (Response True (BodyText
       (js ''Hall,Booth,Brand'' @ newline # js ''9.9,B1,Acme,Info,,,n'' @ newline # js ''17.2,A01,BYD'')))
       demoHeap [0, 1, 2] =
     parseBrandsCSV (Response True (BodyText (js ''Hall,Booth,Brand'' @ newline # js ''17.2,A01,BYD'')))
       demoHeap [0, 1, 2]"
proof -
  have h2: "hd (parse_cols (js ''9.9,B1,Acme,Info,,,n'')) \<notin> set (skeletonCodes demoHeap [0, 1, 2])"
    unfolding demo_codes by (simp add: eval_cols)
  have h3: "newline \<notin> set (js ''9.9,B1,Acme,Info,,,n'')"
    by (simp add: newline_def)
  from unknown_hall_row_is_ignored [OF demo_valid h2, of "[js ''17.2,A01,BYD'']" "[]" True
      "js ''Hall,Booth,Brand''" "js ''17.2,A01,BYD''"] demo_valid h2 h3
  show ?thesis by blast
qed

text \<open>
  Claim C7. After any rows, let a row have three fields or more, name a hall of the
  skeleton and have the category \<open>Info\<close>, and let \<open>x\<close> be the Brand of its id, just
  created when the map had none. With a note that is present and not empty the Brand
  becomes \<open>x\<close> with this note as description; otherwise it is \<open>x\<close>. Its lists of models
  are those of \<open>x\<close>, and no other Brand changes. After a second such row for the same
  hall and booth, with a note that is not empty, the description is the second note.
\<close>

theorem info_row_sets_description:
  assumes "validSkeleton h skel" and "st = foldl processRow (initState h skel) before"
    and "cols = parse_cols row" and "3 \<le> length cols" and "cols ! 0 \<in> set (skeletonCodes h skel)"
    and "k = cols ! 0 @ [hyphen] @ cols ! 1"
    and "x = (case brandById st k of None \<Rightarrow> newBrand k (cols ! 1) (cols ! 2) | Some y \<Rightarrow> y)"
    and "nth_opt cols 3 = Some (js ''Info'')"
  shows "brandById (processRow st row) k =
           Some (case nth_opt cols 6 of
                   None \<Rightarrow> x
                 | Some n \<Rightarrow> if n = [] then x else x\<lparr>description := n\<rparr>) \<and>
         (\<forall>k'. k' \<noteq> k \<longrightarrow> brandById (processRow st row) k' = brandById st k') \<and>
         (\<forall>row2 n2.
            3 \<le> length (parse_cols row2) \<and> parse_cols row2 ! 0 = cols ! 0 \<and>
            parse_cols row2 ! 1 = cols ! 1 \<and> nth_opt (parse_cols row2) 3 = Some (js ''Info'') \<and>
            nth_opt (parse_cols row2) 6 = Some n2 \<and> n2 \<noteq> [] \<longrightarrow>
            map_option description (brandById (processRow (processRow st row) row2) k) = Some n2) \<and>
         the (brandById (processRow st row) k) \<in>
           set (allBrands (processRow st row) (updatedHalls (processRow st row)))"
proof -
  have u: "nth_opt (parse_cols r) 3 = Some (js ''Info'') \<Longrightarrow> rowUpdate r y =
      (case nth_opt (parse_cols r) 6 of
         None \<Rightarrow> y | Some n \<Rightarrow> if n = [] then y else y\<lparr>description := n\<rparr>)" for r y
    by (simp add: rowUpdate_def brandUpdate_def Let_def truthy_def split: option.splits)
  note step = reachable_step [OF assms(1,2) assms(4,5,6,7) [unfolded assms(3)]]
  have first: "brandById (processRow st row) k =
           Some (case nth_opt cols 6 of
                   None \<Rightarrow> x
                 | Some n \<Rightarrow> if n = [] then x else x\<lparr>description := n\<rparr>)"
    using step(1) u [of row x] assms(8) unfolding assms(3) by simp
  have second: "map_option description (brandById (processRow (processRow st row) row2) k) = Some n2"
    if r2: "3 \<le> length (parse_cols row2) \<and> parse_cols row2 ! 0 = cols ! 0 \<and>
            parse_cols row2 ! 1 = cols ! 1 \<and> nth_opt (parse_cols row2) 3 = Some (js ''Info'') \<and>
            nth_opt (parse_cols row2) 6 = Some n2 \<and> n2 \<noteq> []" for row2 n2
  proof -
    have st1: "processRow st row = foldl processRow (initState h skel) (before @ [row])"
      by (simp add: assms(2))
    have in2: "parse_cols row2 ! 0 \<in> set (skeletonCodes h skel)"
      using r2 assms(5) by simp
    have k2: "k = parse_cols row2 ! 0 @ [hyphen] @ parse_cols row2 ! 1"
      using r2 assms(6) by simp
    from reachable_step(1) [OF assms(1) st1 _ in2 k2 refl] r2
    have "brandById (processRow (processRow st row) row2) k =
        Some (rowUpdate row2 (case brandById (processRow st row) k of
           None \<Rightarrow> newBrand k (parse_cols row2 ! 1) (parse_cols row2 ! 2) | Some y \<Rightarrow> y))"
      by simp
    then show ?thesis using r2 by (simp add: u)
  qed
  have "pinv (length (arrays h)) (length (brandObjs h)) (processRow st row)"
    using pinv_reachable [OF assms(1), where rows = "before @ [row]"] by (simp add: assms(2))
  then have "the (brandById (processRow st row) k) \<in>
      set (allBrands (processRow st row) (updatedHalls (processRow st row)))"
    using first by (intro brandById_in_collection) simp_all
  with first step(2) second show ?thesis by blast
qed

theorem info_row_sets_description_witness:
  "validSkeleton demoHeap [0, 1, 2] \<and>
   3 \<le> length (parse_cols (js ''17.2,A01,BYD,Info,,,second'')) \<and>
   parse_cols (js ''17.2,A01,BYD,Info,,,second'') ! 0 \<in> set (skeletonCodes demoHeap [0, 1, 2]) \<and>
   nth_opt (parse_cols (js ''17.2,A01,BYD,Info,,,second'')) 3 = Some (js ''Info'') \<and>
   brandById (foldl processRow (initState demoHeap [0, 1, 2]) [js ''17.2,A01,BYD,Info,,,first'']) (js ''17.2-A01'') =
     Some \<lparr>brand_id = js ''17.2-A01'', booth = js ''A01'', name = js ''BYD'',
            description = js ''first'', models = [], fullModelList = []\<rparr> \<and>
   brandById (processRow (foldl processRow (initState demoHeap [0, 1, 2]) [js ''17.2,A01,BYD,Info,,,first''])
       (js ''17.2,A01,BYD,Info,,,second'')) (js ''17.2-A01'') =
     Some \<lparr>brand_id = js ''17.2-A01'', booth = js ''A01'', name = js ''BYD'',
            description = js ''second'', models = [], fullModelList = []\<rparr>"
proof -
  let ?st = "foldl processRow (initState demoHeap [0, 1, 2]) [js ''17.2,A01,BYD,Info,,,first'']"
  let ?row = "js ''17.2,A01,BYD,Info,,,second''"
  have cols: "parse_cols ?row = [js ''17.2'', js ''A01'', js ''BYD'', js ''Info'', [], [], js ''second'']"
    by (simp add: eval_cols)
  have h3: "3 \<le> length (parse_cols ?row)" unfolding cols by simp
  have h4: "parse_cols ?row ! 0 \<in> set (skeletonCodes demoHeap [0, 1, 2])"
    unfolding demo_codes cols by simp
  have h7: "nth_opt (parse_cols ?row) 3 = Some (js ''Info'')" unfolding cols by (simp add: nth_opt_def)
  have b: "brandById ?st (js ''17.2-A01'') =
     Some \<lparr>brand_id = js ''17.2-A01'', booth = js ''A01'', name = js ''BYD'',
            description = js ''first'', models = [], fullModelList = []\<rparr>"
    by (simp add: brandById_def eval_parser demoHeap_def eval_cols)
  have k: "js ''17.2-A01'' = parse_cols ?row ! 0 @ [hyphen] @ parse_cols ?row ! 1"
    unfolding cols by (simp add: hyphen_def)
  from info_row_sets_description [where before = "[js ''17.2,A01,BYD,Info,,,first'']",
      OF demo_valid refl refl h3 h4 k refl h7]
  have "brandById (processRow ?st ?row) (js ''17.2-A01'') =
     Some \<lparr>brand_id = js ''17.2-A01'', booth = js ''A01'', name = js ''BYD'',
            description = js ''second'', models = [], fullModelList = []\<rparr>"
    unfolding b cols by (simp add: nth_opt_def)
  with demo_valid h3 h4 h7 b show ?thesis by blast
qed

text \<open>
  Claim C8, as amended. A row that splits into fewer than three fields, empty or not,
  changes nothing in any state of the loop; the rows with it and without it give the
  same result, and so do the two documents.
\<close>

theorem short_row_is_ignored:
  assumes "length (parse_cols row) < 3"
  shows "processRow st row = st \<and>
         parseRows h skel (before @ row # after) = parseRows h skel (before @ after) \<and>
         (newline \<notin> set row \<longrightarrow>
            parseBrandsCSV (Response okFlag (BodyText (pre @ newline # row @ newline # post))) h skel =
            parseBrandsCSV (Response okFlag (BodyText (pre @ newline # post))) h skel)"
proof -
  have "rowTarget cs row = None" for cs using assms by (rule rowTarget_short)
  then show ?thesis by (simp add: processRow_skip parseRows_skip parse_document_skip)
qed

theorem short_row_is_ignored_witness:
  "length (parse_cols (js ''17.2,A01'')) < 3 \<and>
   newline \<notin> set (js ''17.2,A01'') \<and>
   processRow (initState demoHeap [0, 1, 2]) (js ''17.2,A01'') = initState demoHeap [0, 1, 2] \<and>
   parseRows demoHeap [0, 1, 2] ([] @ js ''17.2,A01'' # [js ''17.2,A01,BYD'']) =
     parseRows demoHeap [0, 1, 2] ([] @ [js ''17.2,A01,BYD'']) \<and>
   parseBrandsCSV (Response True (BodyText
       (js ''Hall,Booth,Brand'' @ newline # js ''17.2,A01'' @ newline # js ''17.2,A01,BYD'')))
       demoHeap [0, 1, 2] =
     parseBrandsCSV (Response True (BodyText (js ''Hall,Booth,Brand'' @ newline # js ''17.2,A01,BYD'')))
       demoHeap [0, 1, 2]"
proof -
  have h1: "length (parse_cols (js ''17.2,A01'')) < 3"
    by (simp add: eval_cols)
  have h2: "newline \<notin> set (js ''17.2,A01'')"
    by (simp add: newline_def)
  from short_row_is_ignored [OF h1, of "initState demoHeap [0, 1, 2]" demoHeap "[0, 1, 2]" "[]"
      "[js ''17.2,A01,BYD'']" True "js ''Hall,Booth,Brand''" "js ''17.2,A01,BYD''"] h1 h2
  show ?thesis by blast
qed

text \<open>
  Claim C8 as stated fails on a row of three fields of which one is not empty: the row
  \<^verbatim>\<open>17.2,,\<close> has fewer than three populated fields and creates the Brand \<open>17.2-\<close>.
\<close>

theorem row_with_empty_fields_is_processed:
  "length (filter (\<lambda>c. c \<noteq> []) (parse_cols (js ''17.2,,''))) = 1 \<and>
   collectionBrands (parseRows demoHeap [0, 1, 2] [js ''17.2,,'']) =
     [[\<lparr>brand_id = js ''17.2-'', booth = [], name = [], description = [],
        models = [], fullModelList = []\<rparr>], [], []] \<and>
   collectionBrands (parseRows demoHeap [0, 1, 2] []) = [[], [], []]"
  by (simp add: eval_parser demoHeap_def eval_cols)

text \<open>
  Claim C9. When the response body has been read, the returned array has as many halls
  as the skeleton, in the same order; the hall at each position is a new object with the
  id, code, floor, type and every further field of the skeleton's hall at that position;
  its \<open>brands\<close> is a new array, which holds only Brand objects created by this parse,
  none of the skeleton's, and which is empty when the document has no rows. Every
  object that existed before the call, so every hall, array and Brand of the skeleton,
  is unchanged after it.
\<close>

theorem skeleton_is_copied_and_left_alone:
  assumes "validSkeleton h skel"
    and "parseBrandsCSV (Response okFlag (BodyText text)) h skel = Resolved (h', halls)"
  shows "length halls = length skel \<and>
     (\<forall>i<length skel.
        hall_id (hallObjs h' ! (halls ! i)) = hall_id (hallObjs h ! (skel ! i)) \<and>
        code (hallObjs h' ! (halls ! i)) = code (hallObjs h ! (skel ! i)) \<and>
        floor (hallObjs h' ! (halls ! i)) = floor (hallObjs h ! (skel ! i)) \<and>
        type (hallObjs h' ! (halls ! i)) = type (hallObjs h ! (skel ! i)) \<and>
        hall.more (hallObjs h' ! (halls ! i)) = hall.more (hallObjs h ! (skel ! i)) \<and>
        length (hallObjs h) \<le> halls ! i \<and>
        length (arrays h) \<le> brands (hallObjs h' ! (halls ! i)) \<and>
        (\<forall>b\<in>set (arrays h' ! brands (hallObjs h' ! (halls ! i))). length (brandObjs h) \<le> b)) \<and>
     collectionBrands (parseRows h skel []) = replicate (length skel) [] \<and>
     unchangedFrom h h'"
proof -
  from assms(2) have "parseRows h skel (rowsOf text) = (h', halls)"
    by (simp add: parseBrandsCSV_def tryBlock_def)
  with assms(1) show ?thesis by (rule parse_result)
qed

theorem skeleton_is_copied_and_left_alone_witness:
  "validSkeleton demoHeap [0, 1, 2] \<and>
   parseBrandsCSV (Response True (BodyText (js ''Hall,Booth,Brand'' @ newline # js ''17.2,A01,BYD'')))
       demoHeap [0, 1, 2] =
     Resolved (parseRows demoHeap [0, 1, 2] [js ''17.2,A01,BYD'']) \<and>
   snd (parseRows demoHeap [0, 1, 2] [js ''17.2,A01,BYD'']) = [3, 4, 5] \<and>
   length (snd (parseRows demoHeap [0, 1, 2] [js ''17.2,A01,BYD''])) = length [0 :: nat, 1, 2] \<and>
   collectionBrands (parseRows demoHeap [0, 1, 2] [js ''17.2,A01,BYD'']) =
     [[\<lparr>brand_id = js ''17.2-A01'', booth = js ''A01'', name = js ''BYD'', description = [],
         models = [], fullModelList = []\<rparr>], [], []] \<and>
   collectionBrands (demoHeap, [0, 1, 2]) =
     [[\<lparr>brand_id = js ''17.2-Z9'', booth = js ''Z9'', name = js ''Old'',
         description = js ''stale'', models = [], fullModelList = []\<rparr>], [], []] \<and>
   unchangedFrom demoHeap (fst (parseRows demoHeap [0, 1, 2] [js ''17.2,A01,BYD'']))"
proof -
  let ?R = "parseRows demoHeap [0, 1, 2] [js ''17.2,A01,BYD'']"
  have run: "parseBrandsCSV (Response True (BodyText (js ''Hall,Booth,Brand'' @ newline # js ''17.2,A01,BYD'')))
       demoHeap [0, 1, 2] = Resolved (fst ?R, snd ?R)"
    by (simp only: parseBrandsCSV_def tryBlock_def demo_doc fetch_result.case body_result.case
        sum.case prod.collapse)
  from skeleton_is_copied_and_left_alone [OF demo_valid run]
  have "length (snd ?R) = length [0 :: nat, 1, 2]" and "unchangedFrom demoHeap (fst ?R)"
    by blast+
  moreover have "snd ?R = [3, 4, 5]"
    by (simp add: eval_parser demoHeap_def eval_cols)
  moreover have "collectionBrands ?R =
     [[\<lparr>brand_id = js ''17.2-A01'', booth = js ''A01'', name = js ''BYD'', description = [],
         models = [], fullModelList = []\<rparr>], [], []]"
    by (simp add: eval_parser demoHeap_def eval_cols)
  moreover have "collectionBrands (demoHeap, [0, 1, 2]) =
     [[\<lparr>brand_id = js ''17.2-Z9'', booth = js ''Z9'', name = js ''Old'',
         description = js ''stale'', models = [], fullModelList = []\<rparr>], [], []]"
    by (simp add: collectionBrands_def brandsOf_def demoHeap_def)
  moreover have "parseBrandsCSV (Response True (BodyText (js ''Hall,Booth,Brand'' @ newline # js ''17.2,A01,BYD'')))
       demoHeap [0, 1, 2] = Resolved ?R"
    using run by (simp only: prod.collapse)
  ultimately show ?thesis using demo_valid by blast
qed

text \<open>
  Claim C10. For a hall whose \<open>brands\<close> refers to an array of the heap, and a
  \<open>localeCompare\<close> that is a consistent comparator (as the language requires of it), the
  side panel lists the hall's brands ordered by \<open>localeCompare\<close> on their booths: the
  list is the stable sort of the hall's brand list, with the same brands as many times.
  The sort works on a new array: the hall's own array, and every object that existed
  before, is unchanged, so the hall's brand list keeps the order the parser gave it.
\<close>

theorem side_panel_sorts_a_copy:
  assumes "consistentComparator localeCompare"
    and "brands (hallObjs h ! hall) < length (arrays h)"
    and "Sidebar localeCompare h (Some hall) = (h', shown)"
  shows "(\<exists>bs. shown = Some bs \<and>
            sorted_wrt (\<lambda>x y. localeCompare (booth x) (booth y) \<le> 0) bs \<and>
            (\<forall>x. count_list bs x = count_list (brandsOf h hall) x) \<and>
            bs = array_sort (\<lambda>x y. localeCompare (booth x) (booth y)) (brandsOf h hall)) \<and>
         brandsOf h' hall = brandsOf h hall \<and>
         arrays h' ! brands (hallObjs h' ! hall) = arrays h ! brands (hallObjs h ! hall) \<and>
         unchangedFrom h h'"
proof -
  let ?src = "arrays h ! brands (hallObjs h ! hall)"
  let ?cmpA = "\<lambda>a b. localeCompare (booth (brandObjs h ! a)) (booth (brandObjs h ! b))"
  let ?cmpB = "\<lambda>x y. localeCompare (booth x) (booth y)"
  have h': "h' = h\<lparr>arrays := arrays h @ [array_sort ?cmpA ?src]\<rparr>"
    and shown: "shown = Some (map (\<lambda>b. brandObjs h ! b) (array_sort ?cmpA ?src))"
    using assms(3) by (simp_all add: Sidebar_def sortedBrands_def Let_def)
  have bs: "map (\<lambda>b. brandObjs h ! b) (array_sort ?cmpA ?src) = array_sort ?cmpB (brandsOf h hall)"
    unfolding brandsOf_def by (rule array_sort_map [of "\<lambda>b. brandObjs h ! b" ?cmpB ?src])
  have cons: "consistentComparator ?cmpB"
    using assms(1) unfolding consistentComparator_def by blast
  have sorted: "sorted_wrt (\<lambda>x y. ?cmpB x y \<le> 0) (array_sort ?cmpB (brandsOf h hall))"
    using cons by (rule sorted_array_sort)
  have same: "brandsOf h' hall = brandsOf h hall"
    and arr: "arrays h' ! brands (hallObjs h' ! hall) = arrays h ! brands (hallObjs h ! hall)"
    using assms(2) by (simp_all add: h' brandsOf_def nth_append)
  have "unchangedFrom h h'" by (simp add: h' unchangedFrom_def)
  with shown bs sorted same arr show ?thesis
    by (simp add: count_array_sort)
qed

theorem side_panel_sorts_a_copy_witness:
  "consistentComparator lexCompare \<and>
   brands (hallObjs panelHeap ! 0) < length (arrays panelHeap) \<and>
   snd (Sidebar lexCompare panelHeap (Some 0)) =
     Some [\<lparr>brand_id = js ''17.2-A01'', booth = js ''A01'', name = js ''First'',
             description = [], models = [], fullModelList = []\<rparr>,
           \<lparr>brand_id = js ''17.2-B02'', booth = js ''B02'', name = js ''Second'',
             description = [], models = [], fullModelList = []\<rparr>] \<and>
   sorted_wrt (\<lambda>x y. lexCompare (booth x) (booth y) \<le> 0)
     (the (snd (Sidebar lexCompare panelHeap (Some 0)))) \<and>
   brandsOf (fst (Sidebar lexCompare panelHeap (Some 0))) 0 =
     [\<lparr>brand_id = js ''17.2-B02'', booth = js ''B02'', name = js ''Second'',
       description = [], models = [], fullModelList = []\<rparr>,
      \<lparr>brand_id = js ''17.2-A01'', booth = js ''A01'', name = js ''First'',
       description = [], models = [], fullModelList = []\<rparr>] \<and>
   brandsOf (fst (Sidebar lexCompare panelHeap (Some 0))) 0 = brandsOf panelHeap 0"
proof -
  let ?S = "Sidebar lexCompare panelHeap (Some 0)"
  have v: "brands (hallObjs panelHeap ! 0) < length (arrays panelHeap)"
    by (simp add: panelHeap_def)
  from side_panel_sorts_a_copy [OF lexCompare_consistent v prod.collapse [symmetric]]
  obtain bs where s: "snd ?S = Some bs"
    and o: "sorted_wrt (\<lambda>x y. lexCompare (booth x) (booth y) \<le> 0) bs"
    and e: "brandsOf (fst ?S) 0 = brandsOf panelHeap 0"
    by blast
  have b0: "brandsOf panelHeap 0 =
     [\<lparr>brand_id = js ''17.2-B02'', booth = js ''B02'', name = js ''Second'',
       description = [], models = [], fullModelList = []\<rparr>,
      \<lparr>brand_id = js ''17.2-A01'', booth = js ''A01'', name = js ''First'',
       description = [], models = [], fullModelList = []\<rparr>]"
    by (simp add: brandsOf_def panelHeap_def)
  have val: "snd ?S =
     Some [\<lparr>brand_id = js ''17.2-A01'', booth = js ''A01'', name = js ''First'',
             description = [], models = [], fullModelList = []\<rparr>,
           \<lparr>brand_id = js ''17.2-B02'', booth = js ''B02'', name = js ''Second'',
             description = [], models = [], fullModelList = []\<rparr>]"
    by (simp add: Sidebar_def sortedBrands_def Let_def panelHeap_def array_sort_def)
  from s o have "sorted_wrt (\<lambda>x y. lexCompare (booth x) (booth y) \<le> 0) (the (snd ?S))" by simp
  with lexCompare_consistent v val e b0 show ?thesis by (simp only: simp_thms)
qed

end
